theory Spec2Isabelle
  imports Main "HOL-Library.Monad_Syntax" "HOL-Library.Sublist"
begin

section \<open>Python lists\<close>

text \<open>
  Indexing a Python list of length \<open>n\<close> with \<open>i\<close> succeeds for \<open>-n \<le> i < n\<close>; a negative
  index counts from the end. Anything else raises IndexError, which the model returns as
  \<open>None\<close>.
\<close>

definition py_pos :: "nat \<Rightarrow> int \<Rightarrow> nat option" where
  "py_pos n i =
     (if 0 \<le> i \<and> i < int n then Some (nat i)
      else if i < 0 \<and> - int n \<le> i then Some (nat (int n + i))
      else None)"

definition py_get :: "'a list \<Rightarrow> int \<Rightarrow> 'a option" where
  "py_get xs i = map_option (\<lambda>j. xs ! j) (py_pos (length xs) i)"

definition py_set :: "'a list \<Rightarrow> int \<Rightarrow> 'a \<Rightarrow> 'a list option" where
  "py_set xs i v = map_option (\<lambda>j. xs[j := v]) (py_pos (length xs) i)"

text \<open>A \<open>for\<close> loop over a fixed sequence whose body may raise.\<close>

fun for_each :: "'a list \<Rightarrow> ('a \<Rightarrow> 'b \<Rightarrow> 'b option) \<Rightarrow> 'b \<Rightarrow> 'b option" where
  "for_each [] body acc = Some acc"
| "for_each (x # xs) body acc = Option.bind (body x acc) (for_each xs body)"

section \<open>Board and Move\<close>

type_synonym Board = "string list list"

text \<open>\<open>board[r][c]\<close> and \<open>board[r][c] = v\<close>.\<close>

definition board_get :: "Board \<Rightarrow> int \<Rightarrow> int \<Rightarrow> string option" where
  "board_get b r c = do { line \<leftarrow> py_get b r; py_get line c }"

definition board_set :: "Board \<Rightarrow> int \<Rightarrow> int \<Rightarrow> string \<Rightarrow> Board option" where
  "board_set b r c v = do { line \<leftarrow> py_get b r; line' \<leftarrow> py_set line c v; py_set b r line' }"

text \<open>\<open>board[r][c][0]\<close>: the colour character of a cell.\<close>

definition color_at :: "Board \<Rightarrow> int \<Rightarrow> int \<Rightarrow> char option" where
  "color_at b r c = do { cell \<leftarrow> board_get b r c; py_get cell 0 }"

record Move =
  startRow :: int
  startCol :: int
  endRow :: int
  endCol :: int
  pieceMoved :: string
  pieceCaptured :: string
  moveID :: int

text \<open>\<open>Move.__init__(startSq, endSq, board)\<close>.\<close>

definition Move_init :: "int \<times> int \<Rightarrow> int \<times> int \<Rightarrow> Board \<Rightarrow> Move option" where
  "Move_init startSq endSq b = do {
     pm \<leftarrow> board_get b (fst startSq) (snd startSq);
     pc \<leftarrow> board_get b (fst endSq) (snd endSq);
     Some \<lparr> startRow = fst startSq, startCol = snd startSq,
            endRow = fst endSq, endCol = snd endSq,
            pieceMoved = pm, pieceCaptured = pc,
            moveID = fst startSq * 1000 + snd startSq * 100 + fst endSq * 10 + snd endSq \<rparr> }"

text \<open>\<open>Move.__eq__\<close> between two Move objects.\<close>

definition Move_eq :: "Move \<Rightarrow> Move \<Rightarrow> bool" where
  "Move_eq m other = (moveID m = moveID other)"

text \<open>\<open>moves.remove(x)\<close>: drops the first element that compares equal to \<open>x\<close>; ValueError if
  there is none.\<close>

fun py_remove :: "Move list \<Rightarrow> Move \<Rightarrow> Move list option" where
  "py_remove [] x = None"
| "py_remove (y # ys) x =
     (if Move_eq y x then Some ys else map_option ((#) y) (py_remove ys x))"

text \<open>\<open>move in validMoves\<close>.\<close>

definition py_in :: "Move \<Rightarrow> Move list \<Rightarrow> bool" where
  "py_in x ys = list_ex (\<lambda>y. Move_eq y x) ys"

section \<open>GameState\<close>

record GameState =
  board :: Board
  whiteToMove :: bool
  moveLog :: "Move list"
  whiteKingLocation :: "int \<times> int"
  blackKingLocation :: "int \<times> int"
  checkMate :: bool
  staleMate :: bool

definition GameState_init :: GameState where
  "GameState_init = \<lparr>
     board = [
       [''bR'', ''bN'', ''bB'', ''bQ'', ''bK'', ''bB'', ''bN'', ''bR''],
       [''bp'', ''bp'', ''bp'', ''bp'', ''bp'', ''bp'', ''bp'', ''bp''],
       [''--'', ''--'', ''--'', ''--'', ''--'', ''--'', ''--'', ''--''],
       [''--'', ''--'', ''--'', ''--'', ''--'', ''--'', ''--'', ''--''],
       [''--'', ''--'', ''--'', ''--'', ''--'', ''--'', ''--'', ''--''],
       [''--'', ''--'', ''--'', ''--'', ''--'', ''--'', ''--'', ''--''],
       [''wp'', ''wp'', ''wp'', ''wp'', ''wp'', ''wp'', ''wp'', ''wp''],
       [''wR'', ''wN'', ''wB'', ''wQ'', ''wK'', ''wB'', ''wN'', ''wR'']],
     whiteToMove = True,
     moveLog = [],
     whiteKingLocation = (7, 4),
     blackKingLocation = (0, 4),
     checkMate = False,
     staleMate = False \<rparr>"

definition flipTurn :: "GameState \<Rightarrow> GameState" where
  "flipTurn s = s\<lparr> whiteToMove := \<not> whiteToMove s \<rparr>"

definition makeMove :: "Move \<Rightarrow> GameState \<Rightarrow> GameState option" where
  "makeMove move s = do {
     b1 \<leftarrow> board_set (board s) (startRow move) (startCol move) ''--'';
     b2 \<leftarrow> board_set b1 (endRow move) (endCol move) (pieceMoved move);
     let s1 = flipTurn (s\<lparr> board := b2, moveLog := moveLog s @ [move] \<rparr>);
     Some (if pieceMoved move = ''wK'' then s1\<lparr> whiteKingLocation := (endRow move, endCol move) \<rparr>
           else if pieceMoved move = ''bK'' then s1\<lparr> blackKingLocation := (endRow move, endCol move) \<rparr>
           else s1) }"

definition undoMove :: "GameState \<Rightarrow> GameState option" where
  "undoMove s =
     (if length (moveLog s) \<noteq> 0 then do {
        let move = last (moveLog s);
        let s0 = s\<lparr> moveLog := butlast (moveLog s) \<rparr>;
        b1 \<leftarrow> board_set (board s0) (startRow move) (startCol move) (pieceMoved move);
        b2 \<leftarrow> board_set b1 (endRow move) (endCol move) (pieceCaptured move);
        let s1 = flipTurn (s0\<lparr> board := b2 \<rparr>);
        Some (if pieceMoved move = ''wK'' then s1\<lparr> whiteKingLocation := (startRow move, startCol move) \<rparr>
              else if pieceMoved move = ''bK'' then s1\<lparr> blackKingLocation := (startRow move, startCol move) \<rparr>
              else s1) }
      else Some s)"

section \<open>Pseudo-legal move generators\<close>

text \<open>\<open>moves.append(Move((row, col), (endRow, endCol), self.board))\<close>.\<close>

definition add_move :: "GameState \<Rightarrow> int \<times> int \<Rightarrow> int \<times> int \<Rightarrow> Move list \<Rightarrow> Move list option" where
  "add_move s a e moves = do { m \<leftarrow> Move_init a e (board s); Some (moves @ [m]) }"

text \<open>The two branches of \<open>getPawnMoves\<close> differ in the row direction (\<open>-1\<close> for white, \<open>+1\<close>
  for black), the home row and the colour captured.\<close>

definition pawn_branch ::
  "GameState \<Rightarrow> int \<Rightarrow> int \<Rightarrow> char \<Rightarrow> int \<Rightarrow> int \<Rightarrow> Move list \<Rightarrow> Move list option" where
  "pawn_branch s dir home enemy row col moves = do {
     ahead \<leftarrow> board_get (board s) (row + dir) col;
     moves1 \<leftarrow>
       (if ahead = ''--'' then do {
          ms \<leftarrow> add_move s (row, col) (row + dir, col) moves;
          if row = home then do {
            ahead2 \<leftarrow> board_get (board s) (row + 2 * dir) col;
            if ahead2 = ''--'' then add_move s (row, col) (row + 2 * dir, col) ms else Some ms }
          else Some ms }
        else Some moves);
     moves2 \<leftarrow>
       (if col - 1 \<ge> 0 then do {
          cl \<leftarrow> color_at (board s) (row + dir) (col - 1);
          if cl = enemy then add_move s (row, col) (row + dir, col - 1) moves1 else Some moves1 }
        else Some moves1);
     (if col + 1 \<le> 7 then do {
        cr \<leftarrow> color_at (board s) (row + dir) (col + 1);
        if cr = enemy then add_move s (row, col) (row + dir, col + 1) moves2 else Some moves2 }
      else Some moves2) }"

definition getPawnMoves :: "GameState \<Rightarrow> int \<Rightarrow> int \<Rightarrow> Move list \<Rightarrow> Move list option" where
  "getPawnMoves s row col moves =
     (if whiteToMove s then pawn_branch s (- 1) 6 (CHR ''b'') row col moves
      else pawn_branch s 1 1 (CHR ''w'') row col moves)"

text \<open>The inner loop \<open>for i in range(1, 8)\<close> of the rook and bishop generators, for one
  direction \<open>d\<close>; the \<open>break\<close>s end the recursion.\<close>

fun scan_dir ::
  "GameState \<Rightarrow> int \<Rightarrow> int \<Rightarrow> char \<Rightarrow> int \<times> int \<Rightarrow> int list \<Rightarrow> Move list \<Rightarrow> Move list option" where
  "scan_dir s row col enemyColor d [] moves = Some moves"
| "scan_dir s row col enemyColor d (i # rest) moves =
     (let er = row + fst d * i; ec = col + snd d * i in
      if 0 \<le> er \<and> er < 8 \<and> 0 \<le> ec \<and> ec < 8 then do {
        endPiece \<leftarrow> board_get (board s) er ec;
        if endPiece = ''--'' then do {
          ms \<leftarrow> add_move s (row, col) (er, ec) moves;
          scan_dir s row col enemyColor d rest ms }
        else do {
          c \<leftarrow> py_get endPiece 0;
          if c = enemyColor then add_move s (row, col) (er, ec) moves else Some moves } }
      else Some moves)"

definition slide :: "(int \<times> int) list \<Rightarrow> GameState \<Rightarrow> int \<Rightarrow> int \<Rightarrow> Move list \<Rightarrow> Move list option" where
  "slide directions s row col moves =
     (let enemyColor = (if whiteToMove s then CHR ''b'' else CHR ''w'') in
      for_each directions (\<lambda>d. scan_dir s row col enemyColor d [1, 2, 3, 4, 5, 6, 7]) moves)"

definition getRookMoves :: "GameState \<Rightarrow> int \<Rightarrow> int \<Rightarrow> Move list \<Rightarrow> Move list option" where
  "getRookMoves = slide [(- 1, 0), (0, - 1), (1, 0), (0, 1)]"

definition getBishopMoves :: "GameState \<Rightarrow> int \<Rightarrow> int \<Rightarrow> Move list \<Rightarrow> Move list option" where
  "getBishopMoves = slide [(- 1, - 1), (- 1, 1), (1, - 1), (1, 1)]"

definition getQueenMoves :: "GameState \<Rightarrow> int \<Rightarrow> int \<Rightarrow> Move list \<Rightarrow> Move list option" where
  "getQueenMoves s row col moves = do {
     ms \<leftarrow> getRookMoves s row col moves;
     getBishopMoves s row col ms }"

text \<open>The loop body shared by \<open>getKnightMoves\<close> and \<open>getKingMoves\<close>: one fixed offset.\<close>

definition step_to :: "GameState \<Rightarrow> int \<Rightarrow> int \<Rightarrow> char \<Rightarrow> int \<times> int \<Rightarrow> Move list \<Rightarrow> Move list option" where
  "step_to s row col allyColor m moves =
     (let er = row + fst m; ec = col + snd m in
      if 0 \<le> er \<and> er < 8 \<and> 0 \<le> ec \<and> ec < 8 then do {
        c \<leftarrow> color_at (board s) er ec;
        if c \<noteq> allyColor then add_move s (row, col) (er, ec) moves else Some moves }
      else Some moves)"

definition getKnightMoves :: "GameState \<Rightarrow> int \<Rightarrow> int \<Rightarrow> Move list \<Rightarrow> Move list option" where
  "getKnightMoves s row col moves =
     (let knightMoves = [(- 2, - 1), (- 2, 1), (- 1, - 2), (- 1, 2), (1, - 2), (1, 2), (2, - 1), (2, 1)];
          allyColor = (if whiteToMove s then CHR ''w'' else CHR ''b'')
      in for_each knightMoves (step_to s row col allyColor) moves)"

definition getKingMoves :: "GameState \<Rightarrow> int \<Rightarrow> int \<Rightarrow> Move list \<Rightarrow> Move list option" where
  "getKingMoves s row col moves =
     (let kingMoves = [(- 1, - 1), (- 1, 0), (- 1, 1), (0, - 1), (0, 1), (1, - 1), (1, 0), (1, 1)];
          allyColor = (if whiteToMove s then CHR ''w'' else CHR ''b'')
      in for_each kingMoves (step_to s row col allyColor) moves)"

text \<open>The dictionary \<open>moveFunctions\<close>; a missing key is a KeyError.\<close>

definition moveFunctions ::
  "char \<Rightarrow> (GameState \<Rightarrow> int \<Rightarrow> int \<Rightarrow> Move list \<Rightarrow> Move list option) option" where
  "moveFunctions k =
     (if k = CHR ''p'' then Some getPawnMoves
      else if k = CHR ''R'' then Some getRookMoves
      else if k = CHR ''N'' then Some getKnightMoves
      else if k = CHR ''B'' then Some getBishopMoves
      else if k = CHR ''Q'' then Some getQueenMoves
      else if k = CHR ''K'' then Some getKingMoves
      else None)"

section \<open>Legal move filtering\<close>

text \<open>The body of the double loop of \<open>getAllPossibleMoves\<close>.\<close>

definition visit_square :: "GameState \<Rightarrow> int \<Rightarrow> int \<Rightarrow> Move list \<Rightarrow> Move list option" where
  "visit_square s row col moves = do {
     turn \<leftarrow> color_at (board s) row col;
     if (turn = CHR ''w'' \<and> whiteToMove s) \<or> (turn = CHR ''b'' \<and> \<not> whiteToMove s) then do {
       cell \<leftarrow> board_get (board s) row col;
       piece \<leftarrow> py_get cell 1;
       gen \<leftarrow> moveFunctions piece;
       gen s row col moves }
     else Some moves }"

definition visit_row :: "GameState \<Rightarrow> nat \<Rightarrow> Move list \<Rightarrow> Move list option" where
  "visit_row s row moves = do {
     line \<leftarrow> py_get (board s) (int row);
     for_each [0..<length line] (\<lambda>col. visit_square s (int row) (int col)) moves }"

definition getAllPossibleMoves :: "GameState \<Rightarrow> Move list option" where
  "getAllPossibleMoves s = for_each [0..<length (board s)] (visit_row s) []"

definition squareUnderAttack :: "GameState \<Rightarrow> int \<Rightarrow> int \<Rightarrow> (bool \<times> GameState) option" where
  "squareUnderAttack s row col = do {
     let s1 = flipTurn s;
     oppMoves \<leftarrow> getAllPossibleMoves s1;
     let s2 = flipTurn s1;
     Some (list_ex (\<lambda>move. endRow move = row \<and> endCol move = col) oppMoves, s2) }"

definition inCheck :: "GameState \<Rightarrow> (bool \<times> GameState) option" where
  "inCheck s =
     (if whiteToMove s then squareUnderAttack s (fst (whiteKingLocation s)) (snd (whiteKingLocation s))
      else squareUnderAttack s (fst (blackKingLocation s)) (snd (blackKingLocation s)))"

text \<open>One iteration of the loop of \<open>getValidMoves\<close>, at index \<open>i\<close>.\<close>

definition try_move :: "nat \<Rightarrow> Move list \<times> GameState \<Rightarrow> (Move list \<times> GameState) option" where
  "try_move i st = do {
     let moves = fst st;
     m \<leftarrow> py_get moves (int i);
     s1 \<leftarrow> makeMove m (snd st);
     let s2 = flipTurn s1;
     (chk, s3) \<leftarrow> inCheck s2;
     moves' \<leftarrow> (if chk then do { x \<leftarrow> py_get moves (int i); py_remove moves x } else Some moves);
     let s4 = flipTurn s3;
     s5 \<leftarrow> undoMove s4;
     Some (moves', s5) }"

definition getValidMoves :: "GameState \<Rightarrow> (Move list \<times> GameState) option" where
  "getValidMoves s = do {
     moves \<leftarrow> getAllPossibleMoves s;
     (moves', s') \<leftarrow> for_each (rev [0..<length moves]) try_move (moves, s);
     if length moves' = 0 then do {
       (chk, s'') \<leftarrow> inCheck s';
       Some (moves', if chk then s''\<lparr> checkMate := True \<rparr> else s''\<lparr> staleMate := True \<rparr>) }
     else Some (moves', s'\<lparr> checkMate := False, staleMate := False \<rparr>) }"

section \<open>Notions used in the proofs\<close>

text \<open>Indexing, updating and measuring a list with Python integers directly; these give
  \<open>py_get\<close> and \<open>py_set\<close> equations that evaluate without converting between \<open>nat\<close>
  and \<open>int\<close>.\<close>

fun nth_int :: "'a list \<Rightarrow> int \<Rightarrow> 'a option" where
  "nth_int [] i = None"
| "nth_int (x # xs) i = (if i = 0 then Some x else nth_int xs (i - 1))"

fun upd_int :: "'a list \<Rightarrow> int \<Rightarrow> 'a \<Rightarrow> 'a list option" where
  "upd_int [] i v = None"
| "upd_int (x # xs) i v = (if i = 0 then Some (v # xs) else map_option ((#) x) (upd_int xs (i - 1) v))"

fun len_int :: "'a list \<Rightarrow> int" where
  "len_int [] = 0"
| "len_int (x # xs) = 1 + len_int xs"

text \<open>Writing one cell of the board, by position.\<close>

definition put :: "Board \<Rightarrow> nat \<Rightarrow> nat \<Rightarrow> string \<Rightarrow> Board" where
  "put b i j v = b[i := (b ! i)[j := v]]"

text \<open>The offset a move travels by.\<close>

definition delta :: "Move \<Rightarrow> int \<times> int" where
  "delta m = (endRow m - startRow m, endCol m - startCol m)"

text \<open>What every generator guarantees of a move it appends for the piece on \<open>(row, col)\<close>:
  it was built on the current board from that square, its destination column is on the board
  and its destination row is on the board or \<open>-1\<close> (a white pawn standing on row 0).\<close>

definition fresh_ok :: "GameState \<Rightarrow> int \<Rightarrow> int \<Rightarrow> Move \<Rightarrow> bool" where
  "fresh_ok s row col m \<longleftrightarrow>
     (\<exists>e. Move_init (row, col) e (board s) = Some m) \<and>
     - 1 \<le> endRow m \<and> endRow m \<le> 7 \<and> 0 \<le> endCol m \<and> endCol m \<le> 7"

text \<open>A generator only appends to its accumulator, and the offsets of what it appends are
  drawn in order from the list \<open>D\<close>.\<close>

definition appended :: "GameState \<Rightarrow> int \<Rightarrow> int \<Rightarrow> (int \<times> int) list \<Rightarrow> Move list \<Rightarrow> Move list \<Rightarrow> bool" where
  "appended s row col D moves ms \<longleftrightarrow>
     (\<exists>new. ms = moves @ new \<and> (\<forall>m \<in> set new. fresh_ok s row col m) \<and> subseq (map delta new) D)"

text \<open>The seven offsets along one sliding direction.\<close>

definition ray_offsets :: "int \<times> int \<Rightarrow> (int \<times> int) list" where
  "ray_offsets d = map (\<lambda>i. (fst d * i, snd d * i)) [1, 2, 3, 4, 5, 6, 7]"

text \<open>The offsets each kind of piece can move by, in generation order.\<close>

definition offsets_of :: "bool \<Rightarrow> char \<Rightarrow> (int \<times> int) list" where
  "offsets_of white k =
     (if k = CHR ''p'' then (if white then [(- 1, 0), (- 2, 0), (- 1, - 1), (- 1, 1)]
                             else [(1, 0), (2, 0), (1, - 1), (1, 1)])
      else if k = CHR ''R'' then concat (map ray_offsets [(- 1, 0), (0, - 1), (1, 0), (0, 1)])
      else if k = CHR ''N'' then [(- 2, - 1), (- 2, 1), (- 1, - 2), (- 1, 2), (1, - 2), (1, 2), (2, - 1), (2, 1)]
      else if k = CHR ''B'' then concat (map ray_offsets [(- 1, - 1), (- 1, 1), (1, - 1), (1, 1)])
      else if k = CHR ''Q'' then concat (map ray_offsets [(- 1, 0), (0, - 1), (1, 0), (0, 1)])
                                 @ concat (map ray_offsets [(- 1, - 1), (- 1, 1), (1, - 1), (1, 1)])
      else if k = CHR ''K'' then [(- 1, - 1), (- 1, 0), (- 1, 1), (0, - 1), (0, 1), (1, - 1), (1, 0), (1, 1)]
      else [])"

text \<open>The board is an 8 by 8 grid.\<close>

definition wf_board :: "Board \<Rightarrow> bool" where
  "wf_board b \<longleftrightarrow> length b = 8 \<and> list_all (\<lambda>line. length line = 8) b"

text \<open>A move that some generator produced from an on-board square of \<open>s\<close>.\<close>

definition generated :: "GameState \<Rightarrow> Move \<Rightarrow> bool" where
  "generated s m \<longleftrightarrow>
     (\<exists>i < 8. \<exists>j < 8. fresh_ok s (int i) (int j) m \<and>
        color_at (board s) (int i) (int j) = Some (if whiteToMove s then CHR ''w'' else CHR ''b''))"

text \<open>The part of \<open>moveID\<close> an offset contributes.\<close>

definition id_offset :: "int \<times> int \<Rightarrow> int" where
  "id_offset d = 10 * fst d + snd d"

text \<open>The invariant of the board scan of \<open>getAllPossibleMoves\<close>: the identifiers collected
  so far are distinct and lie below those of the squares still to come.\<close>

definition scanned :: "GameState \<Rightarrow> int \<Rightarrow> Move list \<Rightarrow> bool" where
  "scanned s bound moves \<longleftrightarrow>
     distinct (map moveID moves) \<and> (\<forall>m \<in> set moves. moveID m < bound \<and> generated s m)"

text \<open>Wherever the board shows a king, the king-location field of its colour names that
  square. This is the part of the king-location invariant that survives a capture of a king.\<close>

definition kings_tracked :: "GameState \<Rightarrow> bool" where
  "kings_tracked s \<longleftrightarrow>
     list_all (\<lambda>i. list_all (\<lambda>j.
         (board s ! i ! j = ''wK'' \<longrightarrow> whiteKingLocation s = (int i, int j)) \<and>
         (board s ! i ! j = ''bK'' \<longrightarrow> blackKingLocation s = (int i, int j)))
       [0..<length (board s ! i)]) [0..<length (board s)]"

text \<open>Applying a move and undoing it gives the state back.\<close>

definition roundtrip :: "GameState \<Rightarrow> Move \<Rightarrow> bool" where
  "roundtrip s m \<longleftrightarrow> (\<exists>s1. makeMove m s = Some s1 \<and> undoMove s1 = Some s)"

text \<open>The answer of the test in the loop of \<open>getValidMoves\<close>: after \<open>makeMove(m)\<close> and
  the flip of the turn, \<open>inCheck()\<close> finds a generated move of the opponent whose
  \<open>(endRow, endCol)\<close> equals, as a pair of integers, the king-location field of the side
  that moved (lemma \<open>inCheck_after_move\<close>).\<close>

definition inCheck_after :: "GameState \<Rightarrow> Move \<Rightarrow> bool" where
  "inCheck_after s m =
     (case makeMove m s of
        None \<Rightarrow> False
      | Some s1 \<Rightarrow>
          (case getAllPossibleMoves s1 of
             None \<Rightarrow> False
           | Some replies \<Rightarrow>
               list_ex (\<lambda>r. (endRow r, endCol r) =
                              (if whiteToMove s then whiteKingLocation s1 else blackKingLocation s1))
                 replies))"

text \<open>The claim's wording of "applying the move leaves the acting side's own king attacked
  by an opponent pseudo-legal move": after \<open>makeMove(m)\<close>, some move that
  \<open>getAllPossibleMoves\<close> generates for the opponent takes the king of the side that moved.
  The piece a move takes is its \<open>pieceCaptured\<close>, the cell \<open>board[endRow][endCol]\<close> that
  \<open>makeMove\<close> overwrites.\<close>

definition leaves_king_attacked :: "GameState \<Rightarrow> Move \<Rightarrow> bool" where
  "leaves_king_attacked s m =
     (case makeMove m s of
        None \<Rightarrow> False
      | Some s1 \<Rightarrow>
          (case getAllPossibleMoves s1 of
             None \<Rightarrow> False
           | Some replies \<Rightarrow>
               list_ex (\<lambda>r. pieceCaptured r = (if whiteToMove s then ''wK'' else ''bK'')) replies))"

text \<open>A square of the board.\<close>

definition on_board :: "int \<times> int \<Rightarrow> bool" where
  "on_board q \<longleftrightarrow> 0 \<le> fst q \<and> fst q < 8 \<and> 0 \<le> snd q \<and> snd q < 8"

text \<open>The cell on a square of the board.\<close>

definition cell_at :: "Board \<Rightarrow> int \<times> int \<Rightarrow> string" where
  "cell_at b q = b ! nat (fst q) ! nat (snd q)"

text \<open>The thirteen cell codes of the engine, and a board that holds nothing else.\<close>

definition cell_codes :: "string list" where
  "cell_codes = [''--'', ''wp'', ''wR'', ''wN'', ''wB'', ''wQ'', ''wK'',
                 ''bp'', ''bR'', ''bN'', ''bB'', ''bQ'', ''bK'']"

definition cells_ok :: "Board \<Rightarrow> bool" where
  "cells_ok b \<longleftrightarrow> list_all (list_all (\<lambda>cell. cell \<in> set cell_codes)) b"

text \<open>The squares met when leaving \<open>(row, col)\<close> in direction \<open>d\<close>, nearest first, up to the
  edge of the board.\<close>

definition ray :: "int \<Rightarrow> int \<Rightarrow> int \<times> int \<Rightarrow> (int \<times> int) list" where
  "ray row col d =
     takeWhile on_board (map (\<lambda>i. (row + fst d * i, col + snd d * i)) [1, 2, 3, 4, 5, 6, 7])"

text \<open>The destinations on a ray as the specification words them: every empty square passed
  over, then the first occupied square if it holds an enemy piece, and nothing beyond it.\<close>

definition reach :: "Board \<Rightarrow> char \<Rightarrow> (int \<times> int) list \<Rightarrow> (int \<times> int) list" where
  "reach b enemy sqs =
     takeWhile (\<lambda>q. cell_at b q = ''--'') sqs @
     (case dropWhile (\<lambda>q. cell_at b q = ''--'') sqs of
        [] \<Rightarrow> []
      | q # _ \<Rightarrow> if hd (cell_at b q) = enemy then [q] else [])"

text \<open>The Move object for going from \<open>(row, col)\<close> to \<open>q\<close> on board \<open>b\<close>.\<close>

definition move_to :: "Board \<Rightarrow> int \<Rightarrow> int \<Rightarrow> int \<times> int \<Rightarrow> Move" where
  "move_to b row col q =
     \<lparr> startRow = row, startCol = col, endRow = fst q, endCol = snd q,
       pieceMoved = cell_at b (row, col), pieceCaptured = cell_at b q,
       moveID = row * 1000 + col * 100 + fst q * 10 + snd q \<rparr>"

text \<open>The invariant of the specification: each king-location field is the one square of the
  board that holds that king.\<close>

definition kings_located :: "GameState \<Rightarrow> bool" where
  "kings_located s \<longleftrightarrow>
     on_board (whiteKingLocation s) \<and> on_board (blackKingLocation s) \<and>
     list_all (\<lambda>i. list_all (\<lambda>j.
         ((board s ! i ! j = ''wK'') = (whiteKingLocation s = (int i, int j))) \<and>
         ((board s ! i ! j = ''bK'') = (blackKingLocation s = (int i, int j))))
       [0..<length (board s ! i)]) [0..<length (board s)]"

text \<open>No black pawn stands on the last row (row 7), the one square from which the pawn
  generator reads beyond the board.\<close>

definition last_rank_clear :: "Board \<Rightarrow> bool" where
  "last_rank_clear b \<longleftrightarrow> list_all (\<lambda>cell. cell \<noteq> ''bp'') (b ! 7)"

text \<open>The simulation of a candidate inside \<open>getValidMoves\<close> runs through: the move can
  be made and undone, and the replies to it can be generated.\<close>

definition simulates :: "GameState \<Rightarrow> Move \<Rightarrow> bool" where
  "simulates s m \<longleftrightarrow>
     (\<exists>s1 opp. makeMove m s = Some s1 \<and> undoMove s1 = Some s \<and> getAllPossibleMoves s1 = Some opp)"

text \<open>The state in which the engine can be asked for its legal moves without raising.\<close>

definition playable :: "GameState \<Rightarrow> bool" where
  "playable s \<longleftrightarrow>
     wf_board (board s) \<and> cells_ok (board s) \<and> last_rank_clear (board s) \<and> kings_tracked s"

section \<open>The driver\<close>

text \<open>\<open>gs.makeMove(Move(a, e, gs.board))\<close>: build the move on the current board and apply it.\<close>

definition push :: "int \<times> int \<Rightarrow> int \<times> int \<Rightarrow> GameState \<Rightarrow> GameState option" where
  "push a e s = do { move \<leftarrow> Move_init a e (board s); makeMove move s }"

fun play :: "((int \<times> int) \<times> (int \<times> int)) list \<Rightarrow> GameState \<Rightarrow> GameState option" where
  "play [] s = Some s"
| "play (ae # rest) s = do { s1 \<leftarrow> push (fst ae) (snd ae) s; play rest s1 }"

text \<open>One move through the driver \<open>ChessMain.main\<close>: the legal moves are computed, the two
  clicked squares are made into a Move on the current board, and the move is applied only if
  it is \<open>in validMoves\<close>. A rejected pair is \<open>None\<close> here.\<close>

definition submit :: "int \<times> int \<Rightarrow> int \<times> int \<Rightarrow> GameState \<Rightarrow> GameState option" where
  "submit a e gs = do {
     (validMoves, gs1) \<leftarrow> getValidMoves gs;
     move \<leftarrow> Move_init a e (board gs1);
     if py_in move validMoves then makeMove move gs1 else None }"

fun play_legal :: "((int \<times> int) \<times> (int \<times> int)) list \<Rightarrow> GameState \<Rightarrow> GameState option" where
  "play_legal [] s = Some s"
| "play_legal (ae # rest) s = do { s1 \<leftarrow> submit (fst ae) (snd ae) s; play_legal rest s1 }"

text \<open>A check that decides, by two move generations, that the driver accepts a move.\<close>

definition legal_here :: "GameState \<Rightarrow> int \<times> int \<Rightarrow> int \<times> int \<Rightarrow> bool" where
  "legal_here s a e \<longleftrightarrow>
     playable s \<and> \<not> checkMate s \<and> \<not> staleMate s \<and>
     (case getAllPossibleMoves s of
        None \<Rightarrow> False
      | Some cands \<Rightarrow>
          (case Move_init a e (board s) of
             None \<Rightarrow> False
           | Some move \<Rightarrow> move \<in> set cands \<and> \<not> inCheck_after s move))"

fun certified :: "((int \<times> int) \<times> (int \<times> int)) list \<Rightarrow> GameState \<Rightarrow> bool" where
  "certified [] s = True"
| "certified (ae # rest) s =
     (legal_here s (fst ae) (snd ae) \<and>
      (case push (fst ae) (snd ae) s of None \<Rightarrow> False | Some s1 \<Rightarrow> certified rest s1))"

text \<open>The states the driver can bring the engine into: the initial state, any setting of
  the two flags (\<open>getValidMoves\<close> writes them), and \<open>makeMove\<close> of a Move built on the
  current board from two squares of the board (the driver builds its moves from two clicked
  squares). The set is closed under \<open>undoMove\<close> and \<open>getValidMoves\<close>, as proved below.
  It is wider than play by the rules: membership in the legal-move list is not asked for.\<close>

inductive reachable :: "GameState \<Rightarrow> bool" where
  start: "reachable GameState_init"
| flags: "reachable s \<Longrightarrow> reachable (s\<lparr> checkMate := c, staleMate := t \<rparr>)"
| move: "reachable s \<Longrightarrow> on_board a \<Longrightarrow> on_board e \<Longrightarrow> Move_init a e (board s) = Some m \<Longrightarrow>
         makeMove m s = Some s1 \<Longrightarrow> reachable s1"

section \<open>Concrete positions\<close>

text \<open>A list of (start square, end square) pairs as Move objects on a board.\<close>

definition moves_on :: "Board \<Rightarrow> ((int \<times> int) \<times> (int \<times> int)) list \<Rightarrow> Move list" where
  "moves_on b = map (\<lambda>ae. move_to b (fst (fst ae)) (snd (fst ae)) (snd ae))"

text \<open>The twenty first moves of white, in board-scan order: for each pawn of row 6 its single
  and its double advance, then the two moves of each knight of row 7.\<close>

definition initial_destinations :: "((int \<times> int) \<times> (int \<times> int)) list" where
  "initial_destinations =
     [((6, 0), (5, 0)), ((6, 0), (4, 0)), ((6, 1), (5, 1)), ((6, 1), (4, 1)),
      ((6, 2), (5, 2)), ((6, 2), (4, 2)), ((6, 3), (5, 3)), ((6, 3), (4, 3)),
      ((6, 4), (5, 4)), ((6, 4), (4, 4)), ((6, 5), (5, 5)), ((6, 5), (4, 5)),
      ((6, 6), (5, 6)), ((6, 6), (4, 6)), ((6, 7), (5, 7)), ((6, 7), (4, 7)),
      ((7, 1), (5, 0)), ((7, 1), (5, 2)), ((7, 6), (5, 5)), ((7, 6), (5, 7))]"

text \<open>A pin: the white bishop on e2 shields the white king on e1 from the black rook on e8.\<close>

definition pin_position :: GameState where
  "pin_position = \<lparr>
     board = [
       [''bK'', ''--'', ''--'', ''--'', ''bR'', ''--'', ''--'', ''--''],
       [''--'', ''--'', ''--'', ''--'', ''--'', ''--'', ''--'', ''--''],
       [''--'', ''--'', ''--'', ''--'', ''--'', ''--'', ''--'', ''--''],
       [''--'', ''--'', ''--'', ''--'', ''--'', ''--'', ''--'', ''--''],
       [''--'', ''--'', ''--'', ''--'', ''--'', ''--'', ''--'', ''--''],
       [''--'', ''--'', ''--'', ''--'', ''--'', ''--'', ''--'', ''--''],
       [''--'', ''--'', ''--'', ''--'', ''wB'', ''--'', ''--'', ''--''],
       [''--'', ''--'', ''--'', ''--'', ''wK'', ''--'', ''--'', ''--'']],
     whiteToMove = True,
     moveLog = [],
     whiteKingLocation = (7, 4),
     blackKingLocation = (0, 0),
     checkMate = False,
     staleMate = False \<rparr>"

definition pin_candidates :: "((int \<times> int) \<times> (int \<times> int)) list" where
  "pin_candidates =
     [((6, 4), (5, 3)), ((6, 4), (4, 2)), ((6, 4), (3, 1)), ((6, 4), (2, 0)),
      ((6, 4), (5, 5)), ((6, 4), (4, 6)), ((6, 4), (3, 7)),
      ((6, 4), (7, 3)), ((6, 4), (7, 5)),
      ((7, 4), (6, 3)), ((7, 4), (6, 5)), ((7, 4), (7, 3)), ((7, 4), (7, 5))]"

definition pin_legal :: "((int \<times> int) \<times> (int \<times> int)) list" where
  "pin_legal = [((7, 4), (6, 3)), ((7, 4), (6, 5)), ((7, 4), (7, 3)), ((7, 4), (7, 5))]"

text \<open>A white rook on d4 with a black pawn up its file and a white pawn along its row.\<close>

definition slide_position :: GameState where
  "slide_position = \<lparr>
     board = [
       [''--'', ''--'', ''--'', ''--'', ''bK'', ''--'', ''--'', ''--''],
       [''--'', ''--'', ''--'', ''bp'', ''--'', ''--'', ''--'', ''--''],
       [''--'', ''--'', ''--'', ''--'', ''--'', ''--'', ''--'', ''--''],
       [''--'', ''--'', ''--'', ''--'', ''--'', ''--'', ''--'', ''--''],
       [''--'', ''--'', ''--'', ''wR'', ''--'', ''--'', ''wp'', ''--''],
       [''--'', ''--'', ''--'', ''--'', ''--'', ''--'', ''--'', ''--''],
       [''--'', ''--'', ''--'', ''--'', ''--'', ''--'', ''--'', ''--''],
       [''--'', ''--'', ''--'', ''--'', ''wK'', ''--'', ''--'', ''--'']],
     whiteToMove = True,
     moveLog = [],
     whiteKingLocation = (7, 4),
     blackKingLocation = (0, 4),
     checkMate = False,
     staleMate = False \<rparr>"



text \<open>A game in which black's h-pawn walks to h1: 1. a3 h5 2. a4 h4 3. a5 h3 4. a6 hxg2
  5. axb7 gxh1, and the board it leaves, with a black pawn on row 7.\<close>

definition pawn_walk :: "((int \<times> int) \<times> (int \<times> int)) list" where
  "pawn_walk =
     [((6, 0), (5, 0)), ((1, 7), (3, 7)), ((5, 0), (4, 0)), ((3, 7), (4, 7)),
      ((4, 0), (3, 0)), ((4, 7), (5, 7)), ((3, 0), (2, 0)), ((5, 7), (6, 6)),
      ((2, 0), (1, 1)), ((6, 6), (7, 7))]"

definition pawn_walk_board :: Board where
  "pawn_walk_board = [
     [''bR'', ''bN'', ''bB'', ''bQ'', ''bK'', ''bB'', ''bN'', ''bR''],
     [''bp'', ''wp'', ''bp'', ''bp'', ''bp'', ''bp'', ''bp'', ''--''],
     [''--'', ''--'', ''--'', ''--'', ''--'', ''--'', ''--'', ''--''],
     [''--'', ''--'', ''--'', ''--'', ''--'', ''--'', ''--'', ''--''],
     [''--'', ''--'', ''--'', ''--'', ''--'', ''--'', ''--'', ''--''],
     [''--'', ''--'', ''--'', ''--'', ''--'', ''--'', ''--'', ''--''],
     [''--'', ''wp'', ''wp'', ''wp'', ''wp'', ''wp'', ''--'', ''wp''],
     [''wR'', ''wN'', ''wB'', ''wQ'', ''wK'', ''wB'', ''wN'', ''bp'']]"

text \<open>A game in which white's a-pawn walks to b8 and black's king to a1: 1. c4 e5 2. c5 Ke7
  3. a4 Ke6 4. a5 Kd5 5. a6 Kc4 6. Qb3+ Kxb3 7. axb7 Nc6 8. Ra2 Kxa2 9. b8 Ka1; the board
  before black's ninth move; that move; and the move \<open>getPawnMoves\<close> then generates for
  the pawn on row 0, whose destination row \<open>-1\<close> indexes row 7.\<close>

definition wrap_game :: "((int \<times> int) \<times> (int \<times> int)) list" where
  "wrap_game =
     [((6, 2), (4, 2)), ((1, 4), (3, 4)), ((4, 2), (3, 2)), ((0, 4), (1, 4)),
      ((6, 0), (4, 0)), ((1, 4), (2, 4)), ((4, 0), (3, 0)), ((2, 4), (3, 3)),
      ((3, 0), (2, 0)), ((3, 3), (4, 2)), ((7, 3), (5, 1)), ((4, 2), (5, 1)),
      ((2, 0), (1, 1)), ((0, 1), (2, 2)), ((7, 0), (6, 0)), ((5, 1), (6, 0)),
      ((1, 1), (0, 1)), ((6, 0), (7, 0))]"

definition wrap_board :: Board where
  "wrap_board = [
     [''bR'', ''wp'', ''bB'', ''bQ'', ''--'', ''bB'', ''bN'', ''bR''],
     [''bp'', ''--'', ''bp'', ''bp'', ''--'', ''bp'', ''bp'', ''bp''],
     [''--'', ''--'', ''bN'', ''--'', ''--'', ''--'', ''--'', ''--''],
     [''--'', ''--'', ''wp'', ''--'', ''bp'', ''--'', ''--'', ''--''],
     [''--'', ''--'', ''--'', ''--'', ''--'', ''--'', ''--'', ''--''],
     [''--'', ''--'', ''--'', ''--'', ''--'', ''--'', ''--'', ''--''],
     [''bK'', ''wp'', ''--'', ''wp'', ''wp'', ''wp'', ''wp'', ''wp''],
     [''--'', ''wN'', ''wB'', ''--'', ''wK'', ''wB'', ''wN'', ''wR'']]"

definition king_to_corner :: Move where
  "king_to_corner =
     \<lparr> startRow = 6, startCol = 0, endRow = 7, endCol = 0,
       pieceMoved = ''bK'', pieceCaptured = ''--'', moveID = 6070 \<rparr>"

definition pawn_takes_king :: Move where
  "pawn_takes_king =
     \<lparr> startRow = 0, startCol = 1, endRow = - 1, endCol = 0,
       pieceMoved = ''wp'', pieceCaptured = ''bK'', moveID = 90 \<rparr>"


section \<open>Lemmas\<close>

subsection \<open>Python lists and the board\<close>

lemma len_int_eq: "len_int xs = int (length xs)"
  by (induction xs) auto

lemma nth_int_eq: "nth_int xs i = (if 0 \<le> i \<and> i < int (length xs) then Some (xs ! nat i) else None)"
proof (induction xs arbitrary: i)
  case Nil
  then show ?case by simp
next
  case (Cons x xs)
  then show ?case by (auto simp: nth_Cons' nat_diff_distrib')
qed

lemma upd_int_eq: "upd_int xs i v = (if 0 \<le> i \<and> i < int (length xs) then Some (xs[nat i := v]) else None)"
proof (induction xs arbitrary: i)
  case Nil
  then show ?case by simp
next
  case (Cons x xs)
  then show ?case by (auto simp: list_update_code nat_diff_distrib' split: nat.splits)
qed

lemma py_get_code [code]:
  "py_get xs i = (if i < 0 then nth_int xs (len_int xs + i) else nth_int xs i)"
  by (auto simp: py_get_def py_pos_def nth_int_eq len_int_eq)

lemma py_set_code [code]:
  "py_set xs i v = (if i < 0 then upd_int xs (len_int xs + i) v else upd_int xs i v)"
  by (auto simp: py_set_def py_pos_def upd_int_eq len_int_eq)

lemma py_pos_less: "py_pos n i = Some j \<Longrightarrow> j < n"
  by (auto simp: py_pos_def split: if_splits)

lemma py_pos_nat: "k < n \<Longrightarrow> py_pos n (int k) = Some k"
  by (simp add: py_pos_def)

lemma py_get_Some: "py_get xs i = Some x \<longleftrightarrow> (\<exists>j. py_pos (length xs) i = Some j \<and> x = xs ! j)"
  by (auto simp: py_get_def)

lemma py_set_Some: "py_set xs i v = Some ys \<longleftrightarrow> (\<exists>j. py_pos (length xs) i = Some j \<and> ys = xs[j := v])"
  by (auto simp: py_set_def)

lemma board_get_Some:
  "board_get b r c = Some v \<longleftrightarrow>
     (\<exists>i j. py_pos (length b) r = Some i \<and> py_pos (length (b ! i)) c = Some j \<and> v = b ! i ! j)"
  by (auto simp: board_get_def py_get_Some Option.bind_eq_Some_conv)

lemma board_set_Some:
  "board_set b r c v = Some b' \<longleftrightarrow>
     (\<exists>i j. py_pos (length b) r = Some i \<and> py_pos (length (b ! i)) c = Some j \<and> b' = put b i j v)"
  by (auto simp: board_set_def py_get_Some py_set_Some Option.bind_eq_Some_conv put_def)

lemma length_put [simp]: "length (put b i j v) = length b"
  by (simp add: put_def)

lemma length_put_row [simp]: "length (put b i j v ! k) = length (b ! k)"
  by (cases "i < length b"; cases "k = i") (simp_all add: put_def list_update_beyond)

lemma put_nth:
  "k < length b \<Longrightarrow> l < length (b ! k) \<Longrightarrow>
     put b i j v ! k ! l = (if k = i \<and> l = j then v else b ! k ! l)"
  by (cases "k = i"; cases "l = j") (simp_all add: put_def)

lemma board_eqI:
  assumes "length b = length b'" "\<And>k. k < length b \<Longrightarrow> length (b ! k) = length (b' ! k)"
    and "\<And>k l. k < length b \<Longrightarrow> l < length (b ! k) \<Longrightarrow> b ! k ! l = b' ! k ! l"
  shows "b = (b' :: Board)"
  using assms by (auto intro!: nth_equalityI)

lemma flipTurn_flipTurn [simp]: "flipTurn (flipTurn s) = s"
  by (simp add: flipTurn_def)

lemma Move_init_Some:
  "Move_init a e b = Some m \<longleftrightarrow>
     (\<exists>pm pc. board_get b (fst a) (snd a) = Some pm \<and> board_get b (fst e) (snd e) = Some pc \<and>
        m = \<lparr> startRow = fst a, startCol = snd a, endRow = fst e, endCol = snd e,
              pieceMoved = pm, pieceCaptured = pc,
              moveID = fst a * 1000 + snd a * 100 + fst e * 10 + snd e \<rparr>)"
  by (auto simp: Move_init_def Option.bind_eq_Some_conv)

lemma put_restore:
  assumes "i < length b" "j < length (b ! i)" "i' < length b" "j' < length (b ! i')"
  shows "put (put (put (put b i j x) i' j' y) i j (b ! i ! j)) i' j' (b ! i' ! j') = b"
  using assms by (intro board_eqI) (auto simp: put_nth)

subsection \<open>Making and undoing a move\<close>

lemma make_undo:
  assumes mi: "Move_init a e (board s) = Some m"
    and wk: "pieceMoved m = ''wK'' \<Longrightarrow> whiteKingLocation s = a"
    and bk: "pieceMoved m = ''bK'' \<Longrightarrow> blackKingLocation s = a"
  shows "\<exists>s1. makeMove m s = Some s1 \<and> undoMove s1 = Some s"
proof -
  from mi obtain i j i' j' where
    p: "py_pos (length (board s)) (fst a) = Some i" "py_pos (length (board s ! i)) (snd a) = Some j"
       "py_pos (length (board s)) (fst e) = Some i'" "py_pos (length (board s ! i')) (snd e) = Some j'"
    and m: "m = \<lparr> startRow = fst a, startCol = snd a, endRow = fst e, endCol = snd e,
              pieceMoved = board s ! i ! j, pieceCaptured = board s ! i' ! j',
              moveID = fst a * 1000 + snd a * 100 + fst e * 10 + snd e \<rparr>"
    unfolding Move_init_Some board_get_Some by blast
  have lt: "i < length (board s)" "j < length (board s ! i)" "i' < length (board s)" "j' < length (board s ! i')"
    using p by (auto dest: py_pos_less)
  define b1 where "b1 = put (board s) i j ''--''"
  define b2 where "b2 = put b1 i' j' (board s ! i ! j)"
  define b3 where "b3 = put b2 i j (board s ! i ! j)"
  define b4 where "b4 = put b3 i' j' (board s ! i' ! j')"
  have s1: "board_set (board s) (startRow m) (startCol m) ''--'' = Some b1"
    unfolding board_set_Some using p m b1_def by auto
  have s2: "board_set b1 (endRow m) (endCol m) (pieceMoved m) = Some b2"
    unfolding board_set_Some using p m b2_def b1_def by auto
  have s3: "board_set b2 (startRow m) (startCol m) (pieceMoved m) = Some b3"
    unfolding board_set_Some using p m b3_def b2_def b1_def by auto
  have s4: "board_set b3 (endRow m) (endCol m) (pieceCaptured m) = Some b4"
    unfolding board_set_Some using p m b4_def b3_def b2_def b1_def by auto
  have b4: "b4 = board s"
    unfolding b4_def b3_def b2_def b1_def using lt by (rule put_restore)
  have coords: "(startRow m, startCol m) = a" using m by simp
  show ?thesis
    using s1 s2 s3 s4 b4 wk bk coords
    by (cases "pieceMoved m = ''wK''"; cases "pieceMoved m = ''bK''")
       (simp_all add: makeMove_def undoMove_def flipTurn_def Let_def)
qed

subsection \<open>What the generators append\<close>

lemma appended_same: "appended s row col D moves moves"
  by (simp add: appended_def)

lemma appended_trans:
  assumes "appended s row col D1 moves ms" "appended s row col D2 ms ms'"
  shows "appended s row col (D1 @ D2) moves ms'"
proof -
  from assms obtain n1 n2 where
    1: "ms = moves @ n1" "\<forall>m \<in> set n1. fresh_ok s row col m" "subseq (map delta n1) D1" and
    2: "ms' = ms @ n2" "\<forall>m \<in> set n2. fresh_ok s row col m" "subseq (map delta n2) D2"
    unfolding appended_def by blast
  have "subseq (map delta (n1 @ n2)) (D1 @ D2)"
    using 1(3) 2(3) by (simp add: list_emb_append_mono)
  then show ?thesis
    unfolding appended_def using 1 2 by (intro exI[of _ "n1 @ n2"]) auto
qed

lemma appended_weaken:
  "appended s row col D moves ms \<Longrightarrow> subseq D D' \<Longrightarrow> appended s row col D' moves ms"
proof -
  assume "appended s row col D moves ms" and le: "subseq D D'"
  then obtain new where n: "ms = moves @ new" "\<forall>m \<in> set new. fresh_ok s row col m"
    "subseq (map delta new) D"
    unfolding appended_def by blast
  from n(3) le have "subseq (map delta new) D'" by (rule subseq_order.order_trans)
  with n(1,2) show ?thesis unfolding appended_def by blast
qed

lemma appended_skip_r: "appended s row col D moves ms \<Longrightarrow> appended s row col (D @ D0) moves ms"
  by (erule appended_weaken) (simp add: subseq_rev_drop_many)

lemma add_move_appended:
  assumes "add_move s (row, col) (er, ec) moves = Some ms"
    and "- 1 \<le> er" "er \<le> 7" "0 \<le> ec" "ec \<le> 7"
  shows "appended s row col [(er - row, ec - col)] moves ms"
proof -
  from assms(1) obtain m where m: "Move_init (row, col) (er, ec) (board s) = Some m" "ms = moves @ [m]"
    by (auto simp: add_move_def Option.bind_eq_Some_conv)
  then have c: "startRow m = row" "startCol m = col" "endRow m = er" "endCol m = ec"
    by (auto simp: Move_init_Some)
  show ?thesis
    unfolding appended_def using m c assms(2-)
    by (intro exI[of _ "[m]"]) (auto simp: fresh_ok_def delta_def)
qed

lemma board_get_row_bound:
  "board_get b r c = Some v \<Longrightarrow> length b = 8 \<Longrightarrow> - 8 \<le> r \<and> r \<le> 7"
  by (auto simp: board_get_Some py_pos_def split: if_splits)

lemma pawn_branch_appended:
  assumes "pawn_branch s dir home enemy row col moves = Some ms"
    and "length (board s) = 8" "0 \<le> row" "row \<le> 7" "0 \<le> col" "col \<le> 7"
    and "dir = 1 \<or> dir = - 1" "0 < home + 2 * dir" "home + 2 * dir \<le> 7"
  shows "appended s row col [(dir, 0), (2 * dir, 0), (dir, - 1), (dir, 1)] moves ms"
proof -
  from assms(1) obtain ahead m1 m2 where
    a: "board_get (board s) (row + dir) col = Some ahead" and
    m1: "(if ahead = ''--'' then do {
          ms \<leftarrow> add_move s (row, col) (row + dir, col) moves;
          if row = home then do {
            ahead2 \<leftarrow> board_get (board s) (row + 2 * dir) col;
            if ahead2 = ''--'' then add_move s (row, col) (row + 2 * dir, col) ms else Some ms }
          else Some ms }
        else Some moves) = Some m1" and
    m2: "(if col - 1 \<ge> 0 then do {
          cl \<leftarrow> color_at (board s) (row + dir) (col - 1);
          if cl = enemy then add_move s (row, col) (row + dir, col - 1) m1 else Some m1 }
        else Some m1) = Some m2" and
    m3: "(if col + 1 \<le> 7 then do {
        cr \<leftarrow> color_at (board s) (row + dir) (col + 1);
        if cr = enemy then add_move s (row, col) (row + dir, col + 1) m2 else Some m2 }
      else Some m2) = Some ms"
    unfolding pawn_branch_def by (auto simp: Option.bind_eq_Some_conv)
  from a assms(2) have rb: "row + dir \<le> 7" "- 1 \<le> row + dir"
    using board_get_row_bound[OF a] assms by auto
  have A: "appended s row col ([(dir, 0)] @ [(2 * dir, 0)]) moves m1"
  proof (cases "ahead = ''--''")
    case False
    with m1 show ?thesis by (simp add: appended_same)
  next
    case True
    with m1 obtain k where k: "add_move s (row, col) (row + dir, col) moves = Some k"
      and k2: "(if row = home then do {
            ahead2 \<leftarrow> board_get (board s) (row + 2 * dir) col;
            if ahead2 = ''--'' then add_move s (row, col) (row + 2 * dir, col) k else Some k }
          else Some k) = Some m1"
      by (auto simp: Option.bind_eq_Some_conv)
    have 1: "appended s row col [(dir, 0)] moves k"
      using add_move_appended[OF k] rb assms by simp
    have 2: "appended s row col [(2 * dir, 0)] k m1"
    proof (cases "row = home")
      case False
      with k2 show ?thesis by (simp add: appended_same)
    next
      case True
      with k2 obtain ahead2 where
        "(if ahead2 = ''--'' then add_move s (row, col) (row + 2 * dir, col) k else Some k) = Some m1"
        by (auto simp: Option.bind_eq_Some_conv)
      then show ?thesis
        using add_move_appended[of s row col "row + 2 * dir" col k m1] True assms
        by (cases "ahead2 = ''--''") (auto simp: appended_same)
    qed
    show ?thesis by (rule appended_trans[OF 1 2])
  qed
  have B: "appended s row col [(dir, - 1)] m1 m2"
  proof (cases "col - 1 \<ge> 0")
    case False
    with m2 show ?thesis by (simp add: appended_same)
  next
    case True
    with m2 obtain cl where
      "(if cl = enemy then add_move s (row, col) (row + dir, col - 1) m1 else Some m1) = Some m2"
      by (auto simp: Option.bind_eq_Some_conv)
    then show ?thesis
      using add_move_appended[of s row col "row + dir" "col - 1" m1 m2] True rb assms
      by (cases "cl = enemy") (auto simp: appended_same)
  qed
  have C: "appended s row col [(dir, 1)] m2 ms"
  proof (cases "col + 1 \<le> 7")
    case False
    with m3 show ?thesis by (simp add: appended_same)
  next
    case True
    with m3 obtain cr where
      "(if cr = enemy then add_move s (row, col) (row + dir, col + 1) m2 else Some m2) = Some ms"
      by (auto simp: Option.bind_eq_Some_conv)
    then show ?thesis
      using add_move_appended[of s row col "row + dir" "col + 1" m2 ms] True rb assms
      by (cases "cr = enemy") (auto simp: appended_same)
  qed
  from appended_trans[OF appended_trans[OF A B] C] show ?thesis by simp
qed

lemma scan_dir_appended:
  assumes "scan_dir s row col enemy d steps moves = Some ms"
  shows "appended s row col (map (\<lambda>i. (fst d * i, snd d * i)) steps) moves ms"
  using assms
proof (induction steps arbitrary: moves)
  case Nil
  then show ?case by (simp add: appended_same)
next
  case (Cons i rest)
  let ?er = "row + fst d * i"
  let ?ec = "col + snd d * i"
  show ?case
  proof (cases "0 \<le> ?er \<and> ?er < 8 \<and> 0 \<le> ?ec \<and> ?ec < 8")
    case False
    with Cons.prems have "ms = moves" by (auto simp: Let_def)
    then show ?thesis by (simp add: appended_same)
  next
    case inb: True
    with Cons.prems obtain endPiece where
      step: "(if endPiece = ''--'' then do {
          k \<leftarrow> add_move s (row, col) (?er, ?ec) moves;
          scan_dir s row col enemy d rest k }
        else do {
          c \<leftarrow> py_get endPiece 0;
          if c = enemy then add_move s (row, col) (?er, ?ec) moves else Some moves }) = Some ms"
      by (auto simp: Let_def Option.bind_eq_Some_conv)
    show ?thesis
    proof (cases "endPiece = ''--''")
      case True
      with step obtain k where k: "add_move s (row, col) (?er, ?ec) moves = Some k"
        and r: "scan_dir s row col enemy d rest k = Some ms"
        by (auto simp: Option.bind_eq_Some_conv)
      have 1: "appended s row col [(fst d * i, snd d * i)] moves k"
        using add_move_appended[OF k] inb by simp
      from appended_trans[OF 1 Cons.IH[OF r]] show ?thesis by simp
    next
      case False
      with step obtain c where
        "(if c = enemy then add_move s (row, col) (?er, ?ec) moves else Some moves) = Some ms"
        by (auto simp: Option.bind_eq_Some_conv)
      then have "appended s row col [(fst d * i, snd d * i)] moves ms"
        using add_move_appended[of s row col ?er ?ec moves ms] inb
        by (cases "c = enemy") (auto simp: appended_same)
      from appended_skip_r[OF this, of "map (\<lambda>i. (fst d * i, snd d * i)) rest"]
      show ?thesis by simp
    qed
  qed
qed

lemma for_each_appended:
  assumes "for_each xs body moves = Some ms"
    and "\<And>x a b. x \<in> set xs \<Longrightarrow> body x a = Some b \<Longrightarrow> appended s row col (D x) a b"
  shows "appended s row col (concat (map D xs)) moves ms"
  using assms
proof (induction xs arbitrary: moves)
  case Nil
  then show ?case by (simp add: appended_same)
next
  case (Cons x xs)
  from Cons.prems(1) obtain k where k: "body x moves = Some k" and r: "for_each xs body k = Some ms"
    by (auto simp: Option.bind_eq_Some_conv)
  have 1: "appended s row col (D x) moves k" using Cons.prems(2) k by simp
  have 2: "appended s row col (concat (map D xs)) k ms"
    using Cons.IH[OF r] Cons.prems(2) by simp
  from appended_trans[OF 1 2] show ?case by simp
qed

lemma slide_appended:
  assumes "slide directions s row col moves = Some ms"
  shows "appended s row col (concat (map ray_offsets directions)) moves ms"
  using assms unfolding slide_def Let_def ray_offsets_def
  by (rule for_each_appended) (rule scan_dir_appended)

lemma step_to_appended:
  assumes "step_to s row col ally m moves = Some ms"
  shows "appended s row col [m] moves ms"
proof (cases "0 \<le> row + fst m \<and> row + fst m < 8 \<and> 0 \<le> col + snd m \<and> col + snd m < 8")
  case False
  with assms have "ms = moves" by (auto simp: step_to_def Let_def)
  then show ?thesis by (simp add: appended_same)
next
  case True
  with assms obtain c where
    "(if c \<noteq> ally then add_move s (row, col) (row + fst m, col + snd m) moves else Some moves) = Some ms"
    by (auto simp: step_to_def Let_def Option.bind_eq_Some_conv)
  then show ?thesis
    using add_move_appended[of s row col "row + fst m" "col + snd m" moves ms] True
    by (cases "c = ally") (auto simp: appended_same)
qed

lemma steps_appended:
  assumes "for_each offs (step_to s row col ally) moves = Some ms"
  shows "appended s row col offs moves ms"
  using for_each_appended[OF assms, of s row col "\<lambda>m. [m]"] step_to_appended
  by simp

lemma generator_appended:
  assumes "moveFunctions k = Some gen" "gen s row col moves = Some ms"
    and "length (board s) = 8" "0 \<le> row" "row \<le> 7" "0 \<le> col" "col \<le> 7"
  shows "appended s row col (offsets_of (whiteToMove s) k) moves ms"
proof -
  consider "k = CHR ''p''" | "k = CHR ''R''" | "k = CHR ''N''" | "k = CHR ''B''" | "k = CHR ''Q''" | "k = CHR ''K''"
    using assms(1) by (auto simp: moveFunctions_def split: if_splits)
  then show ?thesis
  proof cases
    case 1
    with assms(1) have g: "gen = getPawnMoves" by (simp add: moveFunctions_def)
    show ?thesis
      using assms(2-) pawn_branch_appended[of s "- 1" 6 "CHR ''b''" row col moves ms]
        pawn_branch_appended[of s 1 1 "CHR ''w''" row col moves ms]
      unfolding g getPawnMoves_def offsets_of_def 1 by (auto split: if_splits)
  next
    case 2
    with assms(1) have g: "gen = getRookMoves" by (simp add: moveFunctions_def)
    show ?thesis
      using slide_appended[OF assms(2)[unfolded g getRookMoves_def]]
      unfolding offsets_of_def 2 by simp
  next
    case 3
    with assms(1) have g: "gen = getKnightMoves" by (simp add: moveFunctions_def)
    show ?thesis
      using steps_appended[OF assms(2)[unfolded g getKnightMoves_def Let_def]]
      unfolding offsets_of_def 3 by simp
  next
    case 4
    with assms(1) have g: "gen = getBishopMoves" by (simp add: moveFunctions_def)
    show ?thesis
      using slide_appended[OF assms(2)[unfolded g getBishopMoves_def]]
      unfolding offsets_of_def 4 by simp
  next
    case 5
    with assms(1) have g: "gen = getQueenMoves" by (simp add: moveFunctions_def)
    from assms(2) obtain k' where
      r: "getRookMoves s row col moves = Some k'" and b: "getBishopMoves s row col k' = Some ms"
      unfolding g getQueenMoves_def by (auto simp: Option.bind_eq_Some_conv)
    have "appended s row col (concat (map ray_offsets [(- 1, 0), (0, - 1), (1, 0), (0, 1)])) moves k'"
      by (rule slide_appended[OF r[unfolded getRookMoves_def]])
    moreover have "appended s row col (concat (map ray_offsets [(- 1, - 1), (- 1, 1), (1, - 1), (1, 1)])) k' ms"
      by (rule slide_appended[OF b[unfolded getBishopMoves_def]])
    ultimately have "appended s row col (concat (map ray_offsets [(- 1, 0), (0, - 1), (1, 0), (0, 1)])
        @ concat (map ray_offsets [(- 1, - 1), (- 1, 1), (1, - 1), (1, 1)])) moves ms"
      by (rule appended_trans)
    then show ?thesis
      unfolding offsets_of_def 5 by simp
  next
    case 6
    with assms(1) have g: "gen = getKingMoves" by (simp add: moveFunctions_def)
    show ?thesis
      using steps_appended[OF assms(2)[unfolded g getKingMoves_def Let_def]]
      unfolding offsets_of_def 6 by simp
  qed
qed

subsection \<open>The board scan: distinct identifiers\<close>

lemma wf_board_len: "wf_board b \<Longrightarrow> length b = 8"
  by (simp add: wf_board_def)

lemma wf_board_row: "wf_board b \<Longrightarrow> i < 8 \<Longrightarrow> length (b ! i) = 8"
  by (simp add: wf_board_def list_all_length)

lemma fresh_ok_moveID:
  "fresh_ok s row col m \<Longrightarrow> moveID m = 1010 * row + 101 * col + id_offset (delta m)"
  by (auto simp: fresh_ok_def Move_init_Some delta_def id_offset_def)

lemma fresh_ok_moveID_bounds:
  "fresh_ok s row col m \<Longrightarrow>
     1000 * row + 100 * col - 10 \<le> moveID m \<and> moveID m < 1000 * row + 100 * col + 90"
  by (auto simp: fresh_ok_def Move_init_Some)

lemma ray_offsets_simp:
  "ray_offsets d = [(fst d, snd d), (fst d * 2, snd d * 2), (fst d * 3, snd d * 3),
     (fst d * 4, snd d * 4), (fst d * 5, snd d * 5), (fst d * 6, snd d * 6), (fst d * 7, snd d * 7)]"
  by (simp add: ray_offsets_def)

lemma distinct_offsets: "distinct (map id_offset (offsets_of w k))"
  by (simp add: offsets_of_def ray_offsets_simp id_offset_def)

lemma subseq_distinct: "subseq xs ys \<Longrightarrow> distinct ys \<Longrightarrow> distinct xs"
  using subseqs_distinctD[of xs ys] by simp

lemma appended_distinct_ids:
  assumes "appended s row col (offsets_of w k) moves (moves @ new)"
  shows "distinct (map moveID new)"
proof -
  from assms have f: "\<forall>m \<in> set new. fresh_ok s row col m"
    and sub: "subseq (map delta new) (offsets_of w k)"
    unfolding appended_def by auto
  let ?f = "\<lambda>d. 1010 * row + 101 * col + id_offset d"
  have e: "map moveID new = map ?f (map delta new)"
    using f fresh_ok_moveID[of s row col] by simp
  have "subseq (map ?f (map delta new)) (map ?f (offsets_of w k))"
    using sub by (rule subseq_map)
  moreover have "distinct (map ?f (offsets_of w k))"
    using distinct_offsets[of w k] by (simp add: distinct_map inj_on_def)
  ultimately have "distinct (map ?f (map delta new))" by (rule subseq_distinct)
  then show ?thesis by (simp only: e)
qed

lemma scanned_mono: "scanned s b moves \<Longrightarrow> b \<le> b' \<Longrightarrow> scanned s b' moves"
  by (fastforce simp: scanned_def)

lemma visit_square_scanned:
  assumes v: "visit_square s (int i) (int j) moves = Some ms"
    and len: "length (board s) = 8" and ij: "i < 8" "j < 8"
    and inv: "scanned s (1000 * int i + 100 * int j - 10) moves"
  shows "scanned s (1000 * int i + 100 * int j + 90) ms"
proof -
  have "\<exists>k. appended s (int i) (int j) (offsets_of (whiteToMove s) k) moves ms \<and>
          (ms = moves \<or> color_at (board s) (int i) (int j) = Some (if whiteToMove s then CHR ''w'' else CHR ''b''))"
  proof -
    from v obtain turn where tc: "color_at (board s) (int i) (int j) = Some turn" and
      t: "(if (turn = CHR ''w'' \<and> whiteToMove s) \<or> (turn = CHR ''b'' \<and> \<not> whiteToMove s) then do {
            cell \<leftarrow> board_get (board s) (int i) (int j);
            piece \<leftarrow> py_get cell 1;
            gen \<leftarrow> moveFunctions piece;
            gen s (int i) (int j) moves }
          else Some moves) = Some ms"
      unfolding visit_square_def by (auto simp: Option.bind_eq_Some_conv)
    show ?thesis
    proof (cases "(turn = CHR ''w'' \<and> whiteToMove s) \<or> (turn = CHR ''b'' \<and> \<not> whiteToMove s)")
      case False
      with t have "ms = moves" by simp
      then show ?thesis by (auto simp: appended_same)
    next
      case True
      with t obtain piece gen where "moveFunctions piece = Some gen" "gen s (int i) (int j) moves = Some ms"
        by (auto simp: Option.bind_eq_Some_conv)
      from generator_appended[OF this len] ij
      have "appended s (int i) (int j) (offsets_of (whiteToMove s) piece) moves ms" by auto
      moreover from True tc
      have "color_at (board s) (int i) (int j) = Some (if whiteToMove s then CHR ''w'' else CHR ''b'')"
        by auto
      ultimately show ?thesis by blast
    qed
  qed
  then obtain k new where app: "appended s (int i) (int j) (offsets_of (whiteToMove s) k) moves ms"
    and col: "ms = moves \<or> color_at (board s) (int i) (int j) = Some (if whiteToMove s then CHR ''w'' else CHR ''b'')"
    and ms: "ms = moves @ new" and f: "\<forall>m \<in> set new. fresh_ok s (int i) (int j) m"
    unfolding appended_def by blast
  have d: "distinct (map moveID new)"
    using app unfolding ms by (rule appended_distinct_ids)
  have lo: "\<forall>m \<in> set new. 1000 * int i + 100 * int j - 10 \<le> moveID m \<and> moveID m < 1000 * int i + 100 * int j + 90"
    using f fresh_ok_moveID_bounds by blast
  have g: "\<forall>m \<in> set new. generated s m"
  proof
    fix m assume m: "m \<in> set new"
    with col ms have "color_at (board s) (int i) (int j) = Some (if whiteToMove s then CHR ''w'' else CHR ''b'')"
      by auto
    with f m ij show "generated s m" unfolding generated_def by blast
  qed
  show ?thesis
    unfolding scanned_def ms using inv d lo g
    by (fastforce simp: scanned_def)
qed

lemma for_each_append:
  "for_each (xs @ ys) body a = Option.bind (for_each xs body a) (for_each ys body)"
  by (induction xs arbitrary: a) (auto split: Option.bind_split)

lemma for_each_upt_inv:
  assumes "for_each [0..<n] body a = Some b" "P 0 a"
    and "\<And>k x y. k < n \<Longrightarrow> P k x \<Longrightarrow> body k x = Some y \<Longrightarrow> P (Suc k) y"
  shows "P n b"
  using assms
proof (induction n arbitrary: b)
  case 0
  then show ?case by simp
next
  case (Suc n)
  from Suc.prems(1) obtain c where c: "for_each [0..<n] body a = Some c" and b: "body n c = Some b"
    by (auto simp: for_each_append Option.bind_eq_Some_conv)
  have "P n c" using Suc.IH[OF c Suc.prems(2)] Suc.prems(3) by simp
  then show ?case using Suc.prems(3)[of n c b] b by simp
qed

lemma visit_row_scanned:
  assumes v: "visit_row s i moves = Some ms"
    and wf: "wf_board (board s)" and i: "i < 8"
    and inv: "scanned s (1000 * int i - 10) moves"
  shows "scanned s (1000 * int (Suc i) - 10) ms"
proof -
  have len: "length (board s ! i) = 8" using wf i by (rule wf_board_row)
  from v have fe: "for_each [0..<8] (\<lambda>col. visit_square s (int i) (int col)) moves = Some ms"
    unfolding visit_row_def using len wf i
    by (auto simp: Option.bind_eq_Some_conv py_get_Some py_pos_nat wf_board_len)
  have "scanned s (1000 * int i + 100 * int 8 - 10) ms"
  proof (rule for_each_upt_inv[OF fe, where P = "\<lambda>k. scanned s (1000 * int i + 100 * int k - 10)"])
    show "scanned s (1000 * int i + 100 * int 0 - 10) moves" using inv by simp
  next
    fix k x y
    assume "k < 8" "scanned s (1000 * int i + 100 * int k - 10) x" "visit_square s (int i) (int k) x = Some y"
    from visit_square_scanned[OF this(3) wf_board_len[OF wf] i this(1) this(2)]
    show "scanned s (1000 * int i + 100 * int (Suc k) - 10) y"
      by (rule scanned_mono) simp
  qed
  then show ?thesis by (rule scanned_mono) simp
qed

lemma getAllPossibleMoves_scanned:
  assumes "getAllPossibleMoves s = Some ms" "wf_board (board s)"
  shows "scanned s 7990 ms"
proof -
  from assms have fe: "for_each [0..<8] (visit_row s) [] = Some ms"
    by (simp add: getAllPossibleMoves_def wf_board_len)
  have "scanned s (1000 * int 8 - 10) ms"
  proof (rule for_each_upt_inv[OF fe, where P = "\<lambda>k. scanned s (1000 * int k - 10)"])
    show "scanned s (1000 * int 0 - 10) []" by (simp add: scanned_def)
  next
    fix k x y
    assume "k < 8" "scanned s (1000 * int k - 10) x" "visit_row s k x = Some y"
    from visit_row_scanned[OF this(3) assms(2) this(1) this(2)]
    show "scanned s (1000 * int (Suc k) - 10) y" .
  qed
  then show ?thesis by simp
qed

subsection \<open>The loop of getValidMoves\<close>

lemma kings_trackedD:
  assumes "kings_tracked s" "i < length (board s)" "j < length (board s ! i)"
  shows "board s ! i ! j = ''wK'' \<Longrightarrow> whiteKingLocation s = (int i, int j)"
    and "board s ! i ! j = ''bK'' \<Longrightarrow> blackKingLocation s = (int i, int j)"
  using assms by (auto simp: kings_tracked_def list_all_iff)

lemma py_pos_int: "py_pos n (int i) = Some k \<Longrightarrow> k = i \<and> i < n"
  by (auto simp: py_pos_def split: if_splits)

lemma generated_roundtrip:
  assumes g: "generated s m" and kt: "kings_tracked s"
  shows "roundtrip s m"
proof -
  from g obtain i j e where mi: "Move_init (int i, int j) e (board s) = Some m"
    unfolding generated_def fresh_ok_def by blast
  then obtain i' j' where "py_pos (length (board s)) (int i) = Some i'"
    "py_pos (length (board s ! i')) (int j) = Some j'" "pieceMoved m = board s ! i' ! j'"
    unfolding Move_init_Some board_get_Some by auto
  then have pm: "pieceMoved m = board s ! i ! j" "i < length (board s)" "j < length (board s ! i)"
    by (auto dest!: py_pos_int)
  show ?thesis
    unfolding roundtrip_def using kings_trackedD[OF kt pm(2,3)] pm(1)
    by (intro make_undo[OF mi]) auto
qed

lemma makeMove_turn: "makeMove m s = Some s1 \<Longrightarrow> whiteToMove s1 = (\<not> whiteToMove s)"
  by (auto simp: makeMove_def Option.bind_eq_Some_conv flipTurn_def Let_def split: if_splits)

lemma squareUnderAttack_Some:
  "squareUnderAttack s row col = Some (chk, s') \<longleftrightarrow>
     (\<exists>opp. getAllPossibleMoves (flipTurn s) = Some opp \<and> s' = s \<and>
        chk = list_ex (\<lambda>move. endRow move = row \<and> endCol move = col) opp)"
  by (auto simp: squareUnderAttack_def Let_def Option.bind_eq_Some_conv)

lemma inCheck_after_move:
  assumes "makeMove m s = Some s1" "inCheck (flipTurn s1) = Some (chk, s3)"
  shows "s3 = flipTurn s1 \<and> chk = inCheck_after s m"
proof -
  have w: "whiteToMove (flipTurn s1) = whiteToMove s"
    using makeMove_turn[OF assms(1)] by (simp add: flipTurn_def)
  have k: "whiteKingLocation (flipTurn s1) = whiteKingLocation s1"
       "blackKingLocation (flipTurn s1) = blackKingLocation s1"
    by (simp_all add: flipTurn_def)
  show ?thesis
    using assms w k
    by (cases "whiteToMove s")
       (auto simp: inCheck_def squareUnderAttack_Some inCheck_after_def prod_eq_iff
             intro!: arg_cong2[where f = list_ex])
qed

lemma py_remove_subset: "py_remove xs x = Some ys \<Longrightarrow> set ys \<subseteq> set xs"
  by (induction xs arbitrary: ys) (auto split: if_splits)

lemma py_remove_at:
  "\<forall>y \<in> set xs. \<not> Move_eq y x \<Longrightarrow> py_remove (xs @ x # F) x = Some (xs @ F)"
  by (induction xs) (auto simp: Move_eq_def)

lemma try_move_Some:
  assumes t: "try_move i (moves, s) = Some (moves', s')"
    and rt: "\<forall>m \<in> set moves. roundtrip s m"
  shows "i < length moves \<and> s' = s \<and>
         (if inCheck_after s (moves ! i) then py_remove moves (moves ! i) = Some moves'
          else moves' = moves)"
proof -
  from t obtain m s1 chk s3 s5 where
    m: "py_get moves (int i) = Some m" and mk: "makeMove m s = Some s1" and
    ic: "inCheck (flipTurn s1) = Some (chk, s3)" and
    rm: "(if chk then do { x \<leftarrow> py_get moves (int i); py_remove moves x } else Some moves) = Some moves'" and
    un: "undoMove (flipTurn s3) = Some s5" and s': "s' = s5"
    unfolding try_move_def by (auto simp: Option.bind_eq_Some_conv Let_def)
  from m have i: "i < length moves" "m = moves ! i"
    by (auto simp: py_get_Some dest!: py_pos_int)
  from inCheck_after_move[OF mk ic] have s3: "s3 = flipTurn s1" and chk: "chk = inCheck_after s m"
    by auto
  from rt i have "roundtrip s m" by simp
  with mk have "undoMove s1 = Some s" by (auto simp: roundtrip_def)
  with un s3 s' have "s' = s" by simp
  moreover from rm m chk i(2) have
    "(if inCheck_after s (moves ! i) then py_remove moves (moves ! i) = Some moves' else moves' = moves)"
    by (auto split: if_splits)
  ultimately show ?thesis using i(1) by simp
qed

lemma loop_restores:
  assumes "for_each idxs try_move (moves, s) = Some (moves', s')"
    and "\<forall>m \<in> set moves. roundtrip s m"
  shows "s' = s \<and> set moves' \<subseteq> set moves"
  using assms
proof (induction idxs arbitrary: moves)
  case Nil
  then show ?case by simp
next
  case (Cons i idxs)
  from Cons.prems(1) obtain k sk where
    t: "try_move i (moves, s) = Some (k, sk)" and r: "for_each idxs try_move (k, sk) = Some (moves', s')"
    by (auto simp: Option.bind_eq_Some_conv)
  from try_move_Some[OF t Cons.prems(2)] have sk: "sk = s" and sub: "set k \<subseteq> set moves"
    by (auto dest: py_remove_subset split: if_splits)
  from Cons.IH[OF r[unfolded sk]] sub Cons.prems(2) show ?case by blast
qed

lemma loop_filters:
  assumes "for_each (rev [0..<k]) try_move (take k cands @ F, s) = Some (moves', s')"
    and "k \<le> length cands" "distinct (map moveID cands)"
    and "\<forall>m \<in> set cands \<union> set F. roundtrip s m"
  shows "moves' = filter (\<lambda>m. \<not> inCheck_after s m) (take k cands) @ F"
  using assms
proof (induction k arbitrary: F)
  case 0
  then show ?case by simp
next
  case (Suc k)
  let ?m = "cands ! k"
  have k: "k < length cands" using Suc.prems(2) by simp
  have tk: "take (Suc k) cands = take k cands @ [?m]"
    using k by (simp add: take_Suc_conv_app_nth)
  from Suc.prems(1) obtain ms1 s1 where
    t: "try_move k (take k cands @ ?m # F, s) = Some (ms1, s1)" and
    r: "for_each (rev [0..<k]) try_move (ms1, s1) = Some (moves', s')"
    by (auto simp: tk Option.bind_eq_Some_conv)
  have rt: "\<forall>m \<in> set (take k cands @ ?m # F). roundtrip s m"
    using Suc.prems(4) k by (auto dest: in_set_takeD)
  have nth: "(take k cands @ ?m # F) ! k = ?m"
    using k by (simp add: nth_append)
  have fresh: "\<forall>y \<in> set (take k cands). \<not> Move_eq y ?m"
  proof
    fix y assume "y \<in> set (take k cands)"
    then obtain j where j: "j < k" "y = cands ! j"
      using k by (auto simp: in_set_conv_nth)
    from Suc.prems(3) have "map moveID cands ! j \<noteq> map moveID cands ! k"
      using j k by (simp add: nth_eq_iff_index_eq del: nth_map)
    then show "\<not> Move_eq y ?m" using j k by (simp add: Move_eq_def)
  qed
  from try_move_Some[OF t rt] have s1: "s1 = s" and
    ms1: "ms1 = take k cands @ filter (\<lambda>m. \<not> inCheck_after s m) [?m] @ F"
    using py_remove_at[OF fresh, of F] by (auto simp: nth split: if_splits)
  have rt': "\<forall>m \<in> set cands \<union> set (filter (\<lambda>m. \<not> inCheck_after s m) [?m] @ F). roundtrip s m"
    using Suc.prems(4) k by auto
  from Suc.IH[OF r[unfolded s1 ms1] _ Suc.prems(3) rt'] k
  show ?case by (simp add: tk)
qed

subsection \<open>Sliding scans against their specification\<close>

lemma board_get_on_board:
  assumes "wf_board b" "on_board q"
  shows "board_get b (fst q) (snd q) = Some (cell_at b q)"
proof -
  from assms(2) obtain i j where ij: "fst q = int i" "snd q = int j" "i < 8" "j < 8"
    unfolding on_board_def by (metis nat_less_iff nat_numeral zless_nat_eq_int_zless int_nat_eq)
  then show ?thesis
    using assms(1) wf_board_row[OF assms(1), of i]
    by (simp add: board_get_Some py_pos_nat wf_board_len cell_at_def)
qed

lemma add_move_on_board:
  assumes "wf_board (board s)" "on_board (row, col)" "on_board q"
  shows "add_move s (row, col) q moves = Some (moves @ [move_to (board s) row col q])"
  using board_get_on_board[OF assms(1,2)] board_get_on_board[OF assms(1,3)]
  by (simp add: add_move_def Move_init_def move_to_def)

lemma cells_ok_nth:
  assumes "cells_ok b" "wf_board b" "i < 8" "j < 8"
  shows "b ! i ! j \<in> set cell_codes"
  using assms wf_board_row[OF assms(2), of i]
  by (simp add: cells_ok_def list_all_length wf_board_len)

lemma cells_ok_nonempty:
  assumes "cells_ok b" "wf_board b" "on_board q"
  shows "cell_at b q \<noteq> []"
proof -
  from assms(3) have "nat (fst q) < 8" "nat (snd q) < 8" by (auto simp: on_board_def)
  from cells_ok_nth[OF assms(1,2) this] show ?thesis
    by (auto simp: cell_at_def cell_codes_def)
qed

lemma py_get_hd: "cell \<noteq> [] \<Longrightarrow> py_get cell 0 = Some (hd cell)"
  by (cases cell) (simp_all add: py_get_def py_pos_def)

lemma reach_Cons:
  "reach b enemy (q # sqs) =
     (if cell_at b q = ''--'' then q # reach b enemy sqs
      else if hd (cell_at b q) = enemy then [q] else [])"
  by (simp add: reach_def)

lemma scan_dir_reach:
  assumes "wf_board (board s)" "cells_ok (board s)" "on_board (row, col)"
  shows "scan_dir s row col enemy d steps moves =
           Some (moves @ map (move_to (board s) row col)
                   (reach (board s) enemy
                      (takeWhile on_board (map (\<lambda>i. (row + fst d * i, col + snd d * i)) steps))))"
proof (induction steps arbitrary: moves)
  case Nil
  show ?case by (simp add: reach_def)
next
  case (Cons i rest)
  let ?q = "(row + fst d * i, col + snd d * i)"
  show ?case
  proof (cases "on_board ?q")
    case False
    then show ?thesis by (auto simp: on_board_def reach_def Let_def)
  next
    case True
    then have inb: "0 \<le> row + fst d * i \<and> row + fst d * i < 8 \<and> 0 \<le> col + snd d * i \<and> col + snd d * i < 8"
      by (simp add: on_board_def)
    have g: "board_get (board s) (row + fst d * i) (col + snd d * i) = Some (cell_at (board s) ?q)"
      using board_get_on_board[OF assms(1) True] by simp
    have a: "add_move s (row, col) ?q moves = Some (moves @ [move_to (board s) row col ?q])"
      by (rule add_move_on_board[OF assms(1,3) True])
    have h: "py_get (cell_at (board s) ?q) 0 = Some (hd (cell_at (board s) ?q))"
      by (rule py_get_hd[OF cells_ok_nonempty[OF assms(2,1) True]])
    show ?thesis
      using True inb g a h Cons.IH
      by (simp add: reach_Cons Let_def)
  qed
qed

lemma for_each_total:
  assumes "\<And>x acc. x \<in> set xs \<Longrightarrow> body x acc = Some (acc @ f x)"
  shows "for_each xs body acc = Some (acc @ concat (map f xs))"
  using assms by (induction xs arbitrary: acc) simp_all

lemma slide_reach:
  assumes "wf_board (board s)" "cells_ok (board s)" "on_board (row, col)"
  shows "slide directions s row col moves =
           Some (moves @ concat (map (\<lambda>d. map (move_to (board s) row col)
                    (reach (board s) (if whiteToMove s then CHR ''b'' else CHR ''w'') (ray row col d)))
                  directions))"
  unfolding slide_def Let_def ray_def
  by (rule for_each_total) (rule scan_dir_reach[OF assms])

subsection \<open>What getValidMoves returns\<close>

lemma getAllPossibleMoves_generated:
  assumes "getAllPossibleMoves s = Some cands" "wf_board (board s)"
  shows "distinct (map moveID cands)" and "\<forall>m \<in> set cands. generated s m"
  using getAllPossibleMoves_scanned[OF assms] by (auto simp: scanned_def)

lemma inCheck_Some: "inCheck s = Some (chk, s1) \<Longrightarrow> s1 = s"
  by (auto simp: inCheck_def squareUnderAttack_Some split: if_splits)

lemma getValidMoves_Some:
  assumes gv: "getValidMoves s = Some (legal, s')"
    and wf: "wf_board (board s)" and kt: "kings_tracked s"
  shows "\<exists>cands. getAllPossibleMoves s = Some cands \<and>
           legal = filter (\<lambda>m. \<not> inCheck_after s m) cands \<and>
           (if legal = []
            then \<exists>chk. inCheck s = Some (chk, s) \<and>
                   s' = (if chk then s\<lparr> checkMate := True \<rparr> else s\<lparr> staleMate := True \<rparr>)
            else s' = s\<lparr> checkMate := False, staleMate := False \<rparr>)"
proof -
  from gv obtain cands ms1 s1 where
    c: "getAllPossibleMoves s = Some cands" and
    l: "for_each (rev [0..<length cands]) try_move (cands, s) = Some (ms1, s1)" and
    f: "(if length ms1 = 0 then do {
           (chk, s'') \<leftarrow> inCheck s1;
           Some (ms1, if chk then s''\<lparr> checkMate := True \<rparr> else s''\<lparr> staleMate := True \<rparr>) }
         else Some (ms1, s1\<lparr> checkMate := False, staleMate := False \<rparr>)) = Some (legal, s')"
    unfolding getValidMoves_def by (auto simp: Option.bind_eq_Some_conv)
  have d: "distinct (map moveID cands)" and g: "\<forall>m \<in> set cands. generated s m"
    using getAllPossibleMoves_generated[OF c wf] by auto
  have rt: "\<forall>m \<in> set cands. roundtrip s m"
    using g generated_roundtrip[OF _ kt] by blast
  have s1: "s1 = s" using loop_restores[OF l rt] by simp
  have "ms1 = filter (\<lambda>m. \<not> inCheck_after s m) (take (length cands) cands) @ []"
    by (rule loop_filters[where s' = s1]) (use l d rt in auto)
  then have ms1: "ms1 = filter (\<lambda>m. \<not> inCheck_after s m) cands" by simp
  show ?thesis
  proof (cases "ms1 = []")
    case True
    with f obtain chk s2 where ic: "inCheck s1 = Some (chk, s2)"
      and r: "legal = ms1" "s' = (if chk then s2\<lparr> checkMate := True \<rparr> else s2\<lparr> staleMate := True \<rparr>)"
      by (auto simp: Option.bind_eq_Some_conv)
    from inCheck_Some[OF ic] have "s2 = s1" .
    with ic r c ms1 s1 True show ?thesis by auto
  next
    case False
    with f have "legal = ms1" "s' = s1\<lparr> checkMate := False, staleMate := False \<rparr>" by auto
    with c ms1 s1 False show ?thesis by auto
  qed
qed

subsection \<open>Identifiers and flags\<close>

lemma moveID_inj:
  fixes sr sc er ec sr' sc' er' ec' :: int
  assumes "0 \<le> sc" "sc < 8" "0 \<le> er" "er < 8" "0 \<le> ec" "ec < 8"
    "0 \<le> sc'" "sc' < 8" "0 \<le> er'" "er' < 8" "0 \<le> ec'" "ec' < 8"
    and "sr * 1000 + sc * 100 + er * 10 + ec = sr' * 1000 + sc' * 100 + er' * 10 + ec'"
  shows "sr = sr' \<and> sc = sc' \<and> er = er' \<and> ec = ec'"
proof -
  define k1 where "k1 = (sr' - sr) * 100 + (sc' - sc) * 10 + (er' - er)"
  have "ec - ec' = 10 * k1" using assms(13) by (simp add: k1_def algebra_simps)
  then have "k1 = 0" using assms(5,6,11,12) by arith
  with \<open>ec - ec' = 10 * k1\<close> have e: "ec = ec'" by simp
  define k2 where "k2 = (sr' - sr) * 10 + (sc' - sc)"
  have "er - er' = 10 * k2" using \<open>k1 = 0\<close> by (simp add: k1_def k2_def algebra_simps)
  then have "k2 = 0" using assms(3,4,9,10) by arith
  with \<open>er - er' = 10 * k2\<close> have r: "er = er'" by simp
  have "sc - sc' = 10 * (sr' - sr)" using \<open>k2 = 0\<close> by (simp add: k2_def algebra_simps)
  then have "sr' - sr = 0" using assms(1,2,7,8) by arith
  with \<open>sc - sc' = 10 * (sr' - sr)\<close> have "sc = sc'" "sr = sr'" by simp_all
  with e r show ?thesis by simp
qed

lemma makeMove_flags:
  "makeMove m (s\<lparr> checkMate := c, staleMate := t \<rparr>) =
     map_option (\<lambda>x. x\<lparr> checkMate := c, staleMate := t \<rparr>) (makeMove m s)"
  by (cases "board_set (board s) (startRow m) (startCol m) ''--''";
      cases "board_set (the (board_set (board s) (startRow m) (startCol m) ''--'')) (endRow m) (endCol m) (pieceMoved m)")
     (simp_all add: makeMove_def flipTurn_def Let_def)

lemma undoMove_flags:
  "undoMove (s\<lparr> checkMate := c, staleMate := t \<rparr>) =
     map_option (\<lambda>x. x\<lparr> checkMate := c, staleMate := t \<rparr>) (undoMove s)"
  by (cases "board_set (board s) (startRow (last (moveLog s))) (startCol (last (moveLog s))) (pieceMoved (last (moveLog s)))";
      cases "board_set (the (board_set (board s) (startRow (last (moveLog s))) (startCol (last (moveLog s))) (pieceMoved (last (moveLog s))))) (endRow (last (moveLog s))) (endCol (last (moveLog s))) (pieceCaptured (last (moveLog s)))")
     (simp_all add: undoMove_def flipTurn_def Let_def)

lemma roundtrip_flags:
  "roundtrip s m \<Longrightarrow> roundtrip (s\<lparr> checkMate := c, staleMate := t \<rparr>) m"
  by (auto simp: roundtrip_def makeMove_flags undoMove_flags)

lemma getValidMoves_frame:
  assumes "getValidMoves s = Some (legal, s')" "wf_board (board s)" "kings_tracked s"
  shows "s' = s\<lparr> checkMate := checkMate s', staleMate := staleMate s' \<rparr>"
  using getValidMoves_Some[OF assms] by (auto split: if_splits)


subsection \<open>The king-location invariant\<close>

lemma kings_located_iff:
  "kings_located s \<longleftrightarrow>
     on_board (whiteKingLocation s) \<and> on_board (blackKingLocation s) \<and>
     (\<forall>i < length (board s). \<forall>j < length (board s ! i).
         ((board s ! i ! j = ''wK'') = (whiteKingLocation s = (int i, int j))) \<and>
         ((board s ! i ! j = ''bK'') = (blackKingLocation s = (int i, int j))))"
  by (auto simp: kings_located_def list_all_iff)


lemma on_board_nat:
  assumes "on_board q"
  obtains i j where "q = (int i, int j)" "i < 8" "j < 8"
proof -
  from assms have "q = (int (nat (fst q)), int (nat (snd q)))" "nat (fst q) < 8" "nat (snd q) < 8"
    by (auto simp: on_board_def prod_eq_iff)
  then show ?thesis using that by blast
qed

lemma wf_board_put: "wf_board b \<Longrightarrow> wf_board (put b i j v)"
  by (auto simp: wf_board_def list_all_length)

lemma makeMove_on_board:
  assumes wf: "wf_board (board s)" and mi: "Move_init (int i, int j) (int i', int j') (board s) = Some m"
    and ij: "i < 8" "j < 8" "i' < 8" "j' < 8"
  shows "makeMove m s =
     Some ((if pieceMoved m = ''wK'' then (\<lambda>x. x\<lparr> whiteKingLocation := (int i', int j') \<rparr>)
            else if pieceMoved m = ''bK'' then (\<lambda>x. x\<lparr> blackKingLocation := (int i', int j') \<rparr>)
            else (\<lambda>x. x))
           (flipTurn (s\<lparr> board := put (put (board s) i j ''--'') i' j' (board s ! i ! j),
                          moveLog := moveLog s @ [m] \<rparr>)))"
    and "pieceMoved m = board s ! i ! j" and "pieceCaptured m = board s ! i' ! j'"
proof -
  have len: "length (board s) = 8" "length (board s ! i) = 8" "length (board s ! i') = 8"
    using wf ij by (auto simp: wf_board_len wf_board_row)
  from mi have m: "startRow m = int i" "startCol m = int j" "endRow m = int i'" "endCol m = int j'"
    "pieceMoved m = board s ! i ! j" "pieceCaptured m = board s ! i' ! j'"
    using len ij by (auto simp: Move_init_Some board_get_Some py_pos_nat)
  have 1: "board_set (board s) (int i) (int j) ''--'' = Some (put (board s) i j ''--'')"
    using len ij by (auto simp: board_set_Some py_pos_nat)
  have 2: "board_set (put (board s) i j ''--'') (int i') (int j') (board s ! i ! j)
             = Some (put (put (board s) i j ''--'') i' j' (board s ! i ! j))"
    using len ij by (auto simp: board_set_Some py_pos_nat)
  show "makeMove m s =
     Some ((if pieceMoved m = ''wK'' then (\<lambda>x. x\<lparr> whiteKingLocation := (int i', int j') \<rparr>)
            else if pieceMoved m = ''bK'' then (\<lambda>x. x\<lparr> blackKingLocation := (int i', int j') \<rparr>)
            else (\<lambda>x. x))
           (flipTurn (s\<lparr> board := put (put (board s) i j ''--'') i' j' (board s ! i ! j),
                          moveLog := moveLog s @ [m] \<rparr>)))"
    using m 1 2 by (simp add: makeMove_def Let_def)
  show "pieceMoved m = board s ! i ! j" "pieceCaptured m = board s ! i' ! j'" using m by auto
qed


subsection \<open>The generators return\<close>

lemma py_pos_8: "- 8 \<le> r \<Longrightarrow> r \<le> 7 \<Longrightarrow> \<exists>k < 8. py_pos 8 r = Some k"
  by (auto simp: py_pos_def)

lemma board_get_valid:
  assumes "wf_board b" "cells_ok b" "- 8 \<le> r" "r \<le> 7" "- 8 \<le> c" "c \<le> 7"
  shows "\<exists>v. board_get b r c = Some v \<and> v \<in> set cell_codes"
proof -
  from py_pos_8[OF assms(3,4)] obtain i where i: "i < 8" "py_pos 8 r = Some i" by blast
  from py_pos_8[OF assms(5,6)] obtain j where j: "j < 8" "py_pos 8 c = Some j" by blast
  have "board_get b r c = Some (b ! i ! j)"
    using i j wf_board_len[OF assms(1)] wf_board_row[OF assms(1) i(1)]
    by (simp add: board_get_Some)
  with cells_ok_nth[OF assms(2,1) i(1) j(1)] show ?thesis by simp
qed

lemma color_at_total:
  assumes "wf_board b" "cells_ok b" "- 8 \<le> r" "r \<le> 7" "- 8 \<le> c" "c \<le> 7"
  shows "\<exists>ch. color_at b r c = Some ch"
proof -
  from board_get_valid[OF assms] obtain v where v: "board_get b r c = Some v" "v \<in> set cell_codes"
    by blast
  then have "v \<noteq> []" by (auto simp: cell_codes_def)
  with v(1) show ?thesis by (simp add: color_at_def py_get_hd)
qed

lemma add_move_total:
  assumes "wf_board (board s)" "cells_ok (board s)" "on_board (row, col)"
    "- 8 \<le> er" "er \<le> 7" "- 8 \<le> ec" "ec \<le> 7"
  shows "\<exists>ms. add_move s (row, col) (er, ec) moves = Some ms"
proof -
  from board_get_valid[OF assms(1,2), of row col] assms(3)
  obtain pm where "board_get (board s) row col = Some pm" by (auto simp: on_board_def)
  moreover from board_get_valid[OF assms(1,2,4-)]
  obtain pc where "board_get (board s) er ec = Some pc" by blast
  ultimately show ?thesis by (simp add: add_move_def Move_init_def)
qed

lemma pawn_branch_total:
  assumes wf: "wf_board (board s)" and ok: "cells_ok (board s)" and sq: "on_board (row, col)"
    and dir: "(dir = - 1 \<and> home = 6) \<or> (dir = 1 \<and> home = 1 \<and> row \<noteq> 7)"
  shows "\<exists>ms. pawn_branch s dir home enemy row col moves = Some ms"
proof -
  from sq have rc: "0 \<le> row" "row \<le> 7" "0 \<le> col" "col \<le> 7" by (auto simp: on_board_def)
  have r1: "- 8 \<le> row + dir" "row + dir \<le> 7" using rc dir by auto
  have r2: "row = home \<Longrightarrow> - 8 \<le> row + 2 * dir \<and> row + 2 * dir \<le> 7" using dir by auto
  note am = add_move_total[OF wf ok sq]
  from board_get_valid[OF wf ok r1, of col] rc obtain ahead where
    a: "board_get (board s) (row + dir) col = Some ahead" by auto
  have "\<exists>m1. (if ahead = ''--'' then do {
          ms \<leftarrow> add_move s (row, col) (row + dir, col) moves;
          if row = home then do {
            ahead2 \<leftarrow> board_get (board s) (row + 2 * dir) col;
            if ahead2 = ''--'' then add_move s (row, col) (row + 2 * dir, col) ms else Some ms }
          else Some ms }
        else Some moves) = Some m1"
  proof (cases "ahead = ''--''")
    case False
    then show ?thesis by simp
  next
    case True
    from am[of "row + dir" col moves] r1 rc obtain k where
      k: "add_move s (row, col) (row + dir, col) moves = Some k" by auto
    show ?thesis
    proof (cases "row = home")
      case False
      with True k show ?thesis by simp
    next
      case h: True
      from board_get_valid[OF wf ok, of "row + 2 * dir" col] r2[OF h] rc obtain ahead2 where
        a2: "board_get (board s) (row + 2 * dir) col = Some ahead2" by auto
      from am[of "row + 2 * dir" col k] r2[OF h] rc obtain k2 where
        "add_move s (row, col) (row + 2 * dir, col) k = Some k2" by auto
      with True k h a2 show ?thesis by simp
    qed
  qed
  then obtain m1 where m1: "(if ahead = ''--'' then do {
          ms \<leftarrow> add_move s (row, col) (row + dir, col) moves;
          if row = home then do {
            ahead2 \<leftarrow> board_get (board s) (row + 2 * dir) col;
            if ahead2 = ''--'' then add_move s (row, col) (row + 2 * dir, col) ms else Some ms }
          else Some ms }
        else Some moves) = Some m1" by blast
  have "\<exists>m2. (if col - 1 \<ge> 0 then do {
          cl \<leftarrow> color_at (board s) (row + dir) (col - 1);
          if cl = enemy then add_move s (row, col) (row + dir, col - 1) m1 else Some m1 }
        else Some m1) = Some m2"
  proof (cases "col - 1 \<ge> 0")
    case False
    then show ?thesis by simp
  next
    case True
    from color_at_total[OF wf ok r1, of "col - 1"] True rc obtain cl where
      "color_at (board s) (row + dir) (col - 1) = Some cl" by auto
    moreover from am[of "row + dir" "col - 1" m1] r1 True rc obtain k where
      "add_move s (row, col) (row + dir, col - 1) m1 = Some k" by auto
    ultimately show ?thesis using True by simp
  qed
  then obtain m2 where m2: "(if col - 1 \<ge> 0 then do {
          cl \<leftarrow> color_at (board s) (row + dir) (col - 1);
          if cl = enemy then add_move s (row, col) (row + dir, col - 1) m1 else Some m1 }
        else Some m1) = Some m2" by blast
  have "\<exists>m3. (if col + 1 \<le> 7 then do {
        cr \<leftarrow> color_at (board s) (row + dir) (col + 1);
        if cr = enemy then add_move s (row, col) (row + dir, col + 1) m2 else Some m2 }
      else Some m2) = Some m3"
  proof (cases "col + 1 \<le> 7")
    case False
    then show ?thesis by simp
  next
    case True
    from color_at_total[OF wf ok r1, of "col + 1"] True rc obtain cr where
      "color_at (board s) (row + dir) (col + 1) = Some cr" by auto
    moreover from am[of "row + dir" "col + 1" m2] r1 True rc obtain k where
      "add_move s (row, col) (row + dir, col + 1) m2 = Some k" by auto
    ultimately show ?thesis using True by simp
  qed
  then show ?thesis
    unfolding pawn_branch_def using a m1 m2 by simp
qed

lemma for_each_exists:
  assumes "\<And>x acc. x \<in> set xs \<Longrightarrow> \<exists>r. body x acc = Some r"
  shows "\<exists>r. for_each xs body acc = Some r"
  using assms
proof (induction xs arbitrary: acc)
  case Nil
  then show ?case by simp
next
  case (Cons x xs)
  from Cons.prems[of x acc] obtain r where "body x acc = Some r" by auto
  moreover from Cons.IH[of r] Cons.prems obtain r' where "for_each xs body r = Some r'" by auto
  ultimately show ?case by simp
qed

lemma step_to_total:
  assumes wf: "wf_board (board s)" and ok: "cells_ok (board s)" and sq: "on_board (row, col)"
  shows "\<exists>ms. step_to s row col ally m moves = Some ms"
proof (cases "0 \<le> row + fst m \<and> row + fst m < 8 \<and> 0 \<le> col + snd m \<and> col + snd m < 8")
  case False
  then show ?thesis by (auto simp: step_to_def Let_def)
next
  case True
  from color_at_total[OF wf ok, of "row + fst m" "col + snd m"] True obtain c where
    "color_at (board s) (row + fst m) (col + snd m) = Some c" by auto
  moreover from add_move_total[OF wf ok sq, of "row + fst m" "col + snd m" moves] True obtain k where
    "add_move s (row, col) (row + fst m, col + snd m) moves = Some k" by auto
  ultimately show ?thesis using True by (simp add: step_to_def Let_def)
qed

lemma generator_total:
  assumes wf: "wf_board (board s)" and ok: "cells_ok (board s)" and sq: "on_board (row, col)"
    and mf: "moveFunctions k = Some gen"
    and pawn: "k = CHR ''p'' \<Longrightarrow> \<not> whiteToMove s \<Longrightarrow> row \<noteq> 7"
  shows "\<exists>ms. gen s row col moves = Some ms"
proof -
  consider "k = CHR ''p''" | "k = CHR ''R''" | "k = CHR ''N''" | "k = CHR ''B''" | "k = CHR ''Q''" | "k = CHR ''K''"
    using mf by (auto simp: moveFunctions_def split: if_splits)
  then show ?thesis
  proof cases
    case 1
    with mf have g: "gen = getPawnMoves" by (simp add: moveFunctions_def)
    show ?thesis
      unfolding g getPawnMoves_def
      using pawn_branch_total[OF wf ok sq, of "- 1" 6] pawn_branch_total[OF wf ok sq, of 1 1] pawn[OF 1]
      by auto
  next
    case 2
    with mf have g: "gen = getRookMoves" by (simp add: moveFunctions_def)
    show ?thesis unfolding g getRookMoves_def slide_reach[OF wf ok sq] by simp
  next
    case 3
    with mf have g: "gen = getKnightMoves" by (simp add: moveFunctions_def)
    show ?thesis unfolding g getKnightMoves_def Let_def
      by (rule for_each_exists) (rule step_to_total[OF wf ok sq])
  next
    case 4
    with mf have g: "gen = getBishopMoves" by (simp add: moveFunctions_def)
    show ?thesis unfolding g getBishopMoves_def slide_reach[OF wf ok sq] by simp
  next
    case 5
    with mf have g: "gen = getQueenMoves" by (simp add: moveFunctions_def)
    show ?thesis unfolding g getQueenMoves_def getRookMoves_def getBishopMoves_def slide_reach[OF wf ok sq]
      by simp
  next
    case 6
    with mf have g: "gen = getKingMoves" by (simp add: moveFunctions_def)
    show ?thesis unfolding g getKingMoves_def Let_def
      by (rule for_each_exists) (rule step_to_total[OF wf ok sq])
  qed
qed

lemma visit_square_total:
  assumes wf: "wf_board (board s)" and ok: "cells_ok (board s)" and ij: "i < 8" "j < 8"
    and clear: "whiteToMove s \<or> last_rank_clear (board s)"
  shows "\<exists>ms. visit_square s (int i) (int j) moves = Some ms"
proof -
  let ?cell = "board s ! i ! j"
  have sq: "on_board (int i, int j)" using ij by (simp add: on_board_def)
  have g: "board_get (board s) (int i) (int j) = Some ?cell"
    using board_get_on_board[OF wf sq] by (simp add: cell_at_def)
  have code: "?cell \<in> set cell_codes" by (rule cells_ok_nth[OF ok wf ij])
  then have ne: "?cell \<noteq> []" by (auto simp: cell_codes_def)
  have c: "color_at (board s) (int i) (int j) = Some (hd ?cell)"
    using g ne by (simp add: color_at_def py_get_hd)
  show ?thesis
  proof (cases "(hd ?cell = CHR ''w'' \<and> whiteToMove s) \<or> (hd ?cell = CHR ''b'' \<and> \<not> whiteToMove s)")
    case False
    then show ?thesis unfolding visit_square_def c by auto
  next
    case True
    with code obtain k where k: "py_get ?cell 1 = Some k" and
      kind: "k \<in> set ''pRNBQK''" and bp: "k = CHR ''p'' \<Longrightarrow> \<not> whiteToMove s \<Longrightarrow> ?cell = ''bp''"
      by (auto simp: cell_codes_def py_get_def py_pos_def)
    from kind obtain gen where mf: "moveFunctions k = Some gen"
      by (auto simp: moveFunctions_def)
    have "i \<noteq> 7" if "k = CHR ''p''" "\<not> whiteToMove s"
    proof
      assume "i = 7"
      with clear that(2) have "list_all (\<lambda>cell. cell \<noteq> ''bp'') (board s ! 7)"
        by (simp add: last_rank_clear_def)
      with wf_board_row[OF wf, of 7] ij(2) \<open>i = 7\<close> have "?cell \<noteq> ''bp''"
        by (simp add: list_all_length)
      with bp[OF that] show False by simp
    qed
    then have "k = CHR ''p'' \<Longrightarrow> \<not> whiteToMove s \<Longrightarrow> int i \<noteq> 7" by auto
    from generator_total[OF wf ok sq mf this, of moves] obtain ms where
      "gen s (int i) (int j) moves = Some ms" by blast
    with True g k mf show ?thesis unfolding visit_square_def c by auto
  qed
qed

lemma getAllPossibleMoves_total:
  assumes wf: "wf_board (board s)" and ok: "cells_ok (board s)"
    and clear: "whiteToMove s \<or> last_rank_clear (board s)"
  shows "\<exists>ms. getAllPossibleMoves s = Some ms"
  unfolding getAllPossibleMoves_def
proof (rule for_each_exists)
  fix row acc assume "row \<in> set [0..<length (board s)]"
  then have row: "row < 8" using wf_board_len[OF wf] by simp
  have "py_get (board s) (int row) = Some (board s ! row)"
    using row wf_board_len[OF wf] by (simp add: py_get_Some py_pos_nat)
  moreover have "\<exists>r. for_each [0..<length (board s ! row)]
              (\<lambda>col. visit_square s (int row) (int col)) acc = Some r"
  proof (rule for_each_exists)
    fix col a assume "col \<in> set [0..<length (board s ! row)]"
    then have "col < 8" using wf_board_row[OF wf row] by simp
    from visit_square_total[OF wf ok row this clear]
    show "\<exists>r. visit_square s (int row) (int col) a = Some r" .
  qed
  ultimately show "\<exists>r. visit_row s row acc = Some r"
    by (simp add: visit_row_def)
qed

subsection \<open>getValidMoves returns\<close>

lemma cells_ok_put:
  assumes "cells_ok b" "v \<in> set cell_codes"
  shows "cells_ok (put b i j v)"
  using assms by (auto simp: cells_ok_def list_all_length put_nth)

lemma last_rank_clear_put:
  assumes "last_rank_clear b" "v \<noteq> ''bp''" "7 < length b"
  shows "last_rank_clear (put b i j v)"
  using assms by (auto simp: last_rank_clear_def list_all_length put_nth)

text \<open>What a generated move does to the board.\<close>

lemma generated_makeMove:
  assumes g: "generated s m" and wf: "wf_board (board s)" and ok: "cells_ok (board s)"
    and mk: "makeMove m s = Some s1"
  shows "wf_board (board s1)" and "cells_ok (board s1)"
    and "whiteToMove s \<Longrightarrow> last_rank_clear (board s) \<Longrightarrow> last_rank_clear (board s1)"
proof -
  from g obtain i j e where ij: "i < 8" "j < 8" and
    mi: "Move_init (int i, int j) e (board s) = Some m" and
    col: "color_at (board s) (int i) (int j) = Some (if whiteToMove s then CHR ''w'' else CHR ''b'')"
    unfolding generated_def fresh_ok_def by blast
  have len: "length (board s) = 8" "length (board s ! i) = 8"
    using wf ij by (auto simp: wf_board_len wf_board_row)
  from mi obtain i' j' where
    p: "py_pos (length (board s)) (fst e) = Some i'" "py_pos (length (board s ! i')) (snd e) = Some j'"
    and m: "startRow m = int i" "startCol m = int j" "endRow m = fst e" "endCol m = snd e"
       "pieceMoved m = board s ! i ! j"
    using len ij by (auto simp: Move_init_Some board_get_Some py_pos_nat)
  have i': "i' < 8" using p(1) len by (auto dest: py_pos_less)
  let ?pm = "board s ! i ! j"
  let ?b1 = "put (board s) i j ''--''"
  let ?b2 = "put ?b1 i' j' ?pm"
  have 1: "board_set (board s) (startRow m) (startCol m) ''--'' = Some ?b1"
    using len ij m by (auto simp: board_set_Some py_pos_nat)
  have 2: "board_set ?b1 (endRow m) (endCol m) (pieceMoved m) = Some ?b2"
    using p m by (auto simp: board_set_Some)
  have b: "board s1 = ?b2"
    using mk 1 2 by (auto simp: makeMove_def Let_def flipTurn_def split: if_splits)
  have pm: "?pm \<in> set cell_codes" by (rule cells_ok_nth[OF ok wf ij])
  show "wf_board (board s1)" unfolding b by (intro wf_board_put wf)
  show "cells_ok (board s1)" unfolding b
    by (intro cells_ok_put ok pm) (simp add: cell_codes_def)
  show "last_rank_clear (board s1)" if w: "whiteToMove s" and c: "last_rank_clear (board s)"
  proof -
    have "board_get (board s) (int i) (int j) = Some ?pm"
      using len ij by (simp add: board_get_Some py_pos_nat)
    with col w pm have "?pm \<noteq> ''bp''"
      by (auto simp: color_at_def py_get_def py_pos_def)
    then show ?thesis unfolding b
      by (intro last_rank_clear_put c) (simp_all add: len)
  qed
qed

lemma inCheck_flip_eq:
  assumes "makeMove m s = Some s1" "getAllPossibleMoves s1 = Some opp"
  shows "inCheck (flipTurn s1) = Some (inCheck_after s m, flipTurn s1)"
proof -
  have w: "whiteToMove (flipTurn s1) = whiteToMove s"
    using makeMove_turn[OF assms(1)] by (simp add: flipTurn_def)
  have k: "whiteKingLocation (flipTurn s1) = whiteKingLocation s1"
       "blackKingLocation (flipTurn s1) = blackKingLocation s1"
    by (simp_all add: flipTurn_def)
  obtain chk s3 where ic: "inCheck (flipTurn s1) = Some (chk, s3)"
    using assms(2) by (cases "whiteToMove s") (auto simp: inCheck_def squareUnderAttack_Some w)
  from inCheck_after_move[OF assms(1) ic] ic show ?thesis by simp
qed

lemma try_move_eq:
  assumes i: "i < length moves" and sim: "simulates s (moves ! i)"
  shows "try_move i (moves, s) =
           (if inCheck_after s (moves ! i)
            then Option.bind (py_remove moves (moves ! i)) (\<lambda>ms. Some (ms, s))
            else Some (moves, s))"
proof -
  from sim obtain s1 opp where mk: "makeMove (moves ! i) s = Some s1"
    and un: "undoMove s1 = Some s" and opp: "getAllPossibleMoves s1 = Some opp"
    unfolding simulates_def by blast
  have g: "py_get moves (int i) = Some (moves ! i)"
    using i by (simp add: py_get_Some py_pos_nat)
  show ?thesis
    unfolding try_move_def
    by (simp add: g mk inCheck_flip_eq[OF mk opp] un Let_def)
qed

lemma loop_total:
  assumes "k \<le> length cands" "distinct (map moveID cands)"
    and "\<forall>m \<in> set cands. simulates s m"
  shows "for_each (rev [0..<k]) try_move (take k cands @ F, s) =
           Some (filter (\<lambda>m. \<not> inCheck_after s m) (take k cands) @ F, s)"
  using assms
proof (induction k arbitrary: F)
  case 0
  then show ?case by simp
next
  case (Suc k)
  let ?m = "cands ! k"
  have k: "k < length cands" using Suc.prems(1) by simp
  have tk: "take (Suc k) cands = take k cands @ [?m]"
    using k by (simp add: take_Suc_conv_app_nth)
  have nth: "(take k cands @ ?m # F) ! k = ?m"
    using k by (simp add: nth_append)
  have fresh: "\<forall>y \<in> set (take k cands). \<not> Move_eq y ?m"
  proof
    fix y assume "y \<in> set (take k cands)"
    then obtain j where j: "j < k" "y = cands ! j"
      using k by (auto simp: in_set_conv_nth)
    from Suc.prems(2) have "map moveID cands ! j \<noteq> map moveID cands ! k"
      using j k by (simp add: nth_eq_iff_index_eq del: nth_map)
    then show "\<not> Move_eq y ?m" using j k by (simp add: Move_eq_def)
  qed
  have sim: "simulates s ((take k cands @ ?m # F) ! k)"
    using Suc.prems(3) k by (simp add: nth)
  have t: "try_move k (take k cands @ ?m # F, s) =
             Some (take k cands @ filter (\<lambda>m. \<not> inCheck_after s m) [?m] @ F, s)"
    using try_move_eq[OF _ sim] k py_remove_at[OF fresh, of F] by (simp add: nth)
  have "for_each (rev [0..<Suc k]) try_move (take (Suc k) cands @ F, s) =
          for_each (rev [0..<k]) try_move (take k cands @ filter (\<lambda>m. \<not> inCheck_after s m) [?m] @ F, s)"
    by (simp add: tk t)
  also have "\<dots> = Some (filter (\<lambda>m. \<not> inCheck_after s m) (take k cands)
                        @ filter (\<lambda>m. \<not> inCheck_after s m) [?m] @ F, s)"
    using Suc.IH[of "filter (\<lambda>m. \<not> inCheck_after s m) [?m] @ F"] Suc.prems k by simp
  finally show ?case by (simp add: tk)
qed

lemma getValidMoves_total:
  assumes "playable s"
  shows "\<exists>cands chk. getAllPossibleMoves s = Some cands \<and> inCheck s = Some (chk, s) \<and>
           getValidMoves s =
             Some (filter (\<lambda>m. \<not> inCheck_after s m) cands,
                   if filter (\<lambda>m. \<not> inCheck_after s m) cands = []
                   then (if chk then s\<lparr> checkMate := True \<rparr> else s\<lparr> staleMate := True \<rparr>)
                   else s\<lparr> checkMate := False, staleMate := False \<rparr>)"
proof -
  from assms have wf: "wf_board (board s)" and ok: "cells_ok (board s)"
    and cl: "last_rank_clear (board s)" and kt: "kings_tracked s"
    by (auto simp: playable_def)
  from getAllPossibleMoves_total[OF wf ok] cl obtain cands where
    c: "getAllPossibleMoves s = Some cands" by blast
  have d: "distinct (map moveID cands)" and g: "\<forall>m \<in> set cands. generated s m"
    using getAllPossibleMoves_generated[OF c wf] by auto
  have sim: "\<forall>m \<in> set cands. simulates s m"
  proof
    fix m assume "m \<in> set cands"
    with g have gm: "generated s m" by blast
    from generated_roundtrip[OF gm kt] obtain s1 where
      mk: "makeMove m s = Some s1" and un: "undoMove s1 = Some s"
      by (auto simp: roundtrip_def)
    note st = generated_makeMove[OF gm wf ok mk]
    have "whiteToMove s1 \<or> last_rank_clear (board s1)"
      using makeMove_turn[OF mk] st(3) cl by auto
    from getAllPossibleMoves_total[OF st(1,2) this] mk un
    show "simulates s m" unfolding simulates_def by blast
  qed
  have loop: "for_each (rev [0..<length cands]) try_move (cands, s) =
                Some (filter (\<lambda>m. \<not> inCheck_after s m) cands, s)"
    using loop_total[OF _ d sim, of "length cands" "[]"] by simp
  have "whiteToMove (flipTurn s) \<or> last_rank_clear (board (flipTurn s))"
    using cl by (simp add: flipTurn_def)
  moreover have "wf_board (board (flipTurn s))" "cells_ok (board (flipTurn s))"
    using wf ok by (simp_all add: flipTurn_def)
  ultimately obtain opp where "getAllPossibleMoves (flipTurn s) = Some opp"
    using getAllPossibleMoves_total by blast
  then obtain chk where ic: "inCheck s = Some (chk, s)"
    by (cases "whiteToMove s") (auto simp: inCheck_def squareUnderAttack_Some)
  show ?thesis
    using c ic loop unfolding getValidMoves_def by (intro exI[of _ cands] exI[of _ chk]) auto
qed

subsection \<open>Moves the driver accepts\<close>

lemma submit_legal:
  assumes "legal_here s a e"
  shows "submit a e s = push a e s"
proof -
  from assms have pl: "playable s" and fl: "\<not> checkMate s" "\<not> staleMate s" by (auto simp: legal_here_def)
  from assms obtain cands move where c: "getAllPossibleMoves s = Some cands"
    and m: "Move_init a e (board s) = Some move" and mem: "move \<in> set cands"
    and safe: "\<not> inCheck_after s move"
    by (auto simp: legal_here_def split: option.splits)
  let ?legal = "filter (\<lambda>m. \<not> inCheck_after s m) cands"
  have in_legal: "move \<in> set ?legal" using mem safe by simp
  then have ne: "?legal \<noteq> []" by (metis empty_iff empty_set)
  have same: "s\<lparr> checkMate := False, staleMate := False \<rparr> = s" using fl by simp
  from getValidMoves_total[OF pl] c ne
  have gv: "getValidMoves s = Some (?legal, s)" by (auto simp: same)
  have "py_in move ?legal"
    using in_legal unfolding py_in_def list_ex_iff by (auto simp: Move_eq_def)
  then show ?thesis
    by (simp add: submit_def push_def gv m)
qed

lemma certified_play:
  "certified moves s \<Longrightarrow> play_legal moves s = play moves s"
proof (induction moves arbitrary: s)
  case Nil
  then show ?case by simp
next
  case (Cons ae rest)
  from Cons.prems obtain s1 where l: "legal_here s (fst ae) (snd ae)"
    and p: "push (fst ae) (snd ae) s = Some s1" and r: "certified rest s1"
    by (auto split: option.splits)
  show ?case
    using submit_legal[OF l] p Cons.IH[OF r] by simp
qed

lemma legal_here_valid:
  assumes "legal_here s a e"
  shows "\<exists>cands legal move. getAllPossibleMoves s = Some cands \<and>
           getValidMoves s = Some (legal, s) \<and> Move_init a e (board s) = Some move \<and>
           move \<in> set cands \<and> move \<in> set legal \<and> \<not> inCheck_after s move"
proof -
  from assms have pl: "playable s" and fl: "\<not> checkMate s" "\<not> staleMate s"
    by (auto simp: legal_here_def)
  from assms obtain cands move where c: "getAllPossibleMoves s = Some cands"
    and m: "Move_init a e (board s) = Some move" and mem: "move \<in> set cands"
    and safe: "\<not> inCheck_after s move"
    by (auto simp: legal_here_def split: option.splits)
  let ?legal = "filter (\<lambda>m. \<not> inCheck_after s m) cands"
  have in_legal: "move \<in> set ?legal" using mem safe by simp
  then have ne: "?legal \<noteq> []" by (metis empty_iff empty_set)
  have same: "s\<lparr> checkMate := False, staleMate := False \<rparr> = s" using fl by simp
  from getValidMoves_total[OF pl] c ne
  have gv: "getValidMoves s = Some (?legal, s)" by (auto simp: same)
  with c m mem in_legal safe show ?thesis by blast
qed

subsection \<open>The filter of getValidMoves and the attacked king\<close>

text \<open>What the loop of \<open>getValidMoves\<close> computes: the candidates, in order, for which its
  test \<open>inCheck\<close> answers false; and it returns where every cell is one of the engine's
  codes and no black pawn stands on row 7.\<close>

lemma getValidMoves_filters_by_inCheck:
  assumes "wf_board (board s)" and "kings_tracked s"
  shows "(getAllPossibleMoves s = Some cands \<and> getValidMoves s = Some (legal, s') \<longrightarrow>
            legal = filter (\<lambda>m. \<not> inCheck_after s m) cands \<and>
            (\<forall>m \<in> set cands. m \<in> set legal \<longleftrightarrow> \<not> inCheck_after s m) \<and>
            (\<forall>m \<in> set cands. inCheck_after s m \<longrightarrow> \<not> py_in m legal)) \<and>
         (cells_ok (board s) \<and> last_rank_clear (board s) \<longrightarrow>
            (\<exists>cs ms t. getAllPossibleMoves s = Some cs \<and> getValidMoves s = Some (ms, t)))"
proof (intro conjI impI)
  assume a: "getAllPossibleMoves s = Some cands \<and> getValidMoves s = Some (legal, s')"
  then have c: "getAllPossibleMoves s = Some cands" and gv: "getValidMoves s = Some (legal, s')"
    by auto
  from getValidMoves_Some[OF gv assms] c
  show l: "legal = filter (\<lambda>m. \<not> inCheck_after s m) cands" by auto
  then show "\<forall>m \<in> set cands. m \<in> set legal \<longleftrightarrow> \<not> inCheck_after s m" by auto
  have d: "distinct (map moveID cands)"
    using getAllPossibleMoves_generated(1)[OF c assms(1)] .
  show "\<forall>m \<in> set cands. inCheck_after s m \<longrightarrow> \<not> py_in m legal"
  proof (intro ballI impI notI)
    fix m assume m: "m \<in> set cands" and e: "inCheck_after s m" and "py_in m legal"
    then obtain y where y: "y \<in> set legal" "moveID y = moveID m"
      by (auto simp: py_in_def list_ex_iff Move_eq_def)
    with l have yc: "y \<in> set cands" and safe: "\<not> inCheck_after s y" by auto
    from d m yc y(2) have "y = m" by (meson distinct_map inj_onD)
    with e safe show False by simp
  qed
next
  assume "cells_ok (board s) \<and> last_rank_clear (board s)"
  with assms have "playable s" by (simp add: playable_def)
  from getValidMoves_total[OF this]
  show "\<exists>cs ms t. getAllPossibleMoves s = Some cs \<and> getValidMoves s = Some (ms, t)" by blast
qed

text \<open>Where every reply to a move ends on the board, the test of the loop is the claim's
  "leaves the own king attacked": a reply ends on the king's square exactly when it takes
  the king.\<close>

lemma generated_captured:
  assumes g: "generated s r" and wf: "wf_board (board s)" and ob: "on_board (endRow r, endCol r)"
  shows "pieceCaptured r = cell_at (board s) (endRow r, endCol r)"
proof -
  from g obtain a e where mi: "Move_init a e (board s) = Some r"
    unfolding generated_def fresh_ok_def by blast
  then have e: "e = (endRow r, endCol r)"
    and pc: "board_get (board s) (fst e) (snd e) = Some (pieceCaptured r)"
    by (auto simp: Move_init_Some)
  from board_get_on_board[OF wf ob] pc show ?thesis by (simp add: e)
qed

lemma kings_located_cell:
  assumes kl: "kings_located s" and wf: "wf_board (board s)" and ob: "on_board q"
  shows "(cell_at (board s) q = ''wK'') = (whiteKingLocation s = q)"
    and "(cell_at (board s) q = ''bK'') = (blackKingLocation s = q)"
proof -
  from ob obtain i j where q: "q = (int i, int j)" "i < 8" "j < 8" by (rule on_board_nat)
  have len: "i < length (board s)" "j < length (board s ! i)"
    using wf q by (auto simp: wf_board_len wf_board_row)
  from kl len show "(cell_at (board s) q = ''wK'') = (whiteKingLocation s = q)"
    and "(cell_at (board s) q = ''bK'') = (blackKingLocation s = q)"
    by (auto simp: kings_located_iff cell_at_def q)
qed

lemma inCheck_after_iff_attacked:
  assumes mk: "makeMove m s = Some s1"
    and wf: "wf_board (board s1)" and kl: "kings_located s1"
    and g: "getAllPossibleMoves s1 = Some replies"
    and ob: "\<forall>r \<in> set replies. on_board (endRow r, endCol r)"
  shows "inCheck_after s m \<longleftrightarrow> leaves_king_attacked s m"
proof -
  have key: "((endRow r, endCol r) = whiteKingLocation s1) = (pieceCaptured r = ''wK'')"
            "((endRow r, endCol r) = blackKingLocation s1) = (pieceCaptured r = ''bK'')"
    if r: "r \<in> set replies" for r
  proof -
    from getAllPossibleMoves_generated(2)[OF g wf] r have gr: "generated s1 r" by blast
    from ob r have o: "on_board (endRow r, endCol r)" by blast
    note c = generated_captured[OF gr wf o]
    show "((endRow r, endCol r) = whiteKingLocation s1) = (pieceCaptured r = ''wK'')"
      using kings_located_cell(1)[OF kl wf o] c by auto
    show "((endRow r, endCol r) = blackKingLocation s1) = (pieceCaptured r = ''bK'')"
      using kings_located_cell(2)[OF kl wf o] c by auto
  qed
  show ?thesis
    unfolding inCheck_after_def leaves_king_attacked_def
    using key by (auto simp: mk g list_ex_iff)
qed

subsection \<open>Reachable states\<close>

lemma kings_tracked_iff:
  "kings_tracked s \<longleftrightarrow>
     (\<forall>i < length (board s). \<forall>j < length (board s ! i).
         (board s ! i ! j = ''wK'' \<longrightarrow> whiteKingLocation s = (int i, int j)) \<and>
         (board s ! i ! j = ''bK'' \<longrightarrow> blackKingLocation s = (int i, int j)))"
  by (auto simp: kings_tracked_def list_all_iff)

lemma makeMove_kings_tracked:
  assumes wf: "wf_board (board s)" and ok: "cells_ok (board s)" and kt: "kings_tracked s"
    and a: "on_board a" and e: "on_board e"
    and mi: "Move_init a e (board s) = Some m"
    and mk: "makeMove m s = Some s1"
  shows "wf_board (board s1) \<and> cells_ok (board s1) \<and> kings_tracked s1"
proof -
  from a obtain i j where a': "a = (int i, int j)" "i < 8" "j < 8" by (rule on_board_nat)
  from e obtain i' j' where e': "e = (int i', int j')" "i' < 8" "j' < 8" by (rule on_board_nat)
  note mm = makeMove_on_board[OF wf mi[unfolded a' e'] a'(2,3) e'(2,3)]
  let ?b = "put (put (board s) i j ''--'') i' j' (board s ! i ! j)"
  have b1: "board s1 = ?b"
    using mk unfolding mm(1) by (auto simp: flipTurn_def split: if_splits)
  have w1: "whiteKingLocation s1 = (if board s ! i ! j = ''wK'' then (int i', int j') else whiteKingLocation s)"
    using mk unfolding mm(1) mm(2) by (auto simp: flipTurn_def split: if_splits)
  have k1: "blackKingLocation s1 = (if board s ! i ! j = ''bK'' then (int i', int j') else blackKingLocation s)"
    using mk unfolding mm(1) mm(2) by (auto simp: flipTurn_def split: if_splits)
  have len: "length (board s) = 8" "\<And>k. k < 8 \<Longrightarrow> length (board s ! k) = 8"
    using wf by (auto simp: wf_board_len wf_board_row)
  from kt have cells: "\<And>k l. k < 8 \<Longrightarrow> l < 8 \<Longrightarrow>
        (board s ! k ! l = ''wK'' \<longrightarrow> whiteKingLocation s = (int k, int l)) \<and>
        (board s ! k ! l = ''bK'' \<longrightarrow> blackKingLocation s = (int k, int l))"
    using len by (auto simp: kings_tracked_iff)
  have nth: "\<And>k l. k < 8 \<Longrightarrow> l < 8 \<Longrightarrow>
      ?b ! k ! l = (if k = i' \<and> l = j' then board s ! i ! j
                    else if k = i \<and> l = j then ''--'' else board s ! k ! l)"
    using len by (simp add: put_nth)
  have wfb: "wf_board ?b" using wf by (intro wf_board_put)
  have pm: "board s ! i ! j \<in> set cell_codes" by (rule cells_ok_nth[OF ok wf a'(2,3)])
  have okb: "cells_ok ?b"
    by (intro cells_ok_put ok pm) (simp add: cell_codes_def)
  have "(?b ! k ! l = ''wK'' \<longrightarrow> whiteKingLocation s1 = (int k, int l)) \<and>
        (?b ! k ! l = ''bK'' \<longrightarrow> blackKingLocation s1 = (int k, int l))"
    if kl: "k < 8" "l < 8" for k l
    using cells[OF kl] cells[OF a'(2,3)] a'(2,3) e'(2,3)
    unfolding nth[OF kl] w1 k1 by (auto split: if_splits)
  then have "\<forall>k < length ?b. \<forall>l < length (?b ! k).
        (?b ! k ! l = ''wK'' \<longrightarrow> whiteKingLocation s1 = (int k, int l)) \<and>
        (?b ! k ! l = ''bK'' \<longrightarrow> blackKingLocation s1 = (int k, int l))"
    using len by simp
  then show ?thesis
    unfolding kings_tracked_iff b1 using wfb okb by blast
qed

lemma init_board_ok:
  "wf_board (board GameState_init) \<and> cells_ok (board GameState_init) \<and> kings_tracked GameState_init"
  by code_simp

lemma reachable_invariant:
  "reachable s \<Longrightarrow> wf_board (board s) \<and> cells_ok (board s) \<and> kings_tracked s"
proof (induction rule: reachable.induct)
  case start
  show ?case by (rule init_board_ok)
next
  case (flags s t c)
  then show ?case by (simp add: kings_tracked_def)
next
  case (move s a e m s1)
  then show ?case using makeMove_kings_tracked by blast
qed




lemma reachable_getValidMoves:
  assumes "reachable s" "getValidMoves s = Some (legal, s')"
  shows "reachable s'"
proof -
  from reachable_invariant[OF assms(1)] have "wf_board (board s)" "kings_tracked s" by auto
  from getValidMoves_frame[OF assms(2) this]
  have "s' = s\<lparr> checkMate := checkMate s', staleMate := staleMate s' \<rparr>" .
  then show ?thesis using reachable.flags[OF assms(1)] by metis
qed

text \<open>What the driver does reaches only such states.\<close>

lemma reachable_submit:
  assumes "reachable s" "on_board a" "on_board e" "submit a e s = Some s1"
  shows "reachable s1"
proof -
  from assms(4) obtain legal s' m where gv: "getValidMoves s = Some (legal, s')"
    and mi: "Move_init a e (board s') = Some m" and mk: "makeMove m s' = Some s1"
    by (auto simp: submit_def Option.bind_eq_Some_conv split: if_splits)
  from reachable_getValidMoves[OF assms(1) gv] have "reachable s'" .
  from reachable.move[OF this assms(2,3) mi mk] show ?thesis .
qed


lemma makeMove_log: "makeMove m s = Some s1 \<Longrightarrow> moveLog s1 = moveLog s @ [m]"
  by (auto simp: makeMove_def Option.bind_eq_Some_conv flipTurn_def Let_def split: if_splits)

section \<open>Evaluating the engine on concrete positions\<close>

lemma init_playable: "playable GameState_init"
  by code_simp


lemma init_valid_moves:
  "getValidMoves GameState_init =
     Some (moves_on (board GameState_init) initial_destinations, GameState_init)"
  by code_simp

lemma pin_playable: "playable pin_position"
  by code_simp

lemma pin_candidates_eval:
  "getAllPossibleMoves pin_position = Some (moves_on (board pin_position) pin_candidates)"
  by code_simp

lemma pin_valid_moves:
  "getValidMoves pin_position = Some (moves_on (board pin_position) pin_legal, pin_position)"
  by code_simp

lemma pin_bishop_in_check: "inCheck_after pin_position (move_to (board pin_position) 6 4 (5, 3))"
  by code_simp

lemma pin_bishop_candidate:
  "move_to (board pin_position) 6 4 (5, 3) \<in> set (moves_on (board pin_position) pin_candidates)"
  by code_simp

lemma pin_attack: "squareUnderAttack pin_position 7 4 = Some (False, pin_position)"
  by code_simp

lemma slide_board_ok:
  "wf_board (board slide_position) \<and> cells_ok (board slide_position) \<and> on_board (4, 3)"
  by code_simp

lemma slide_reach_eval:
  "reach (board slide_position) (CHR ''b'') (ray 4 3 (- 1, 0)) = [(3, 3), (2, 3), (1, 3)] \<and>
   reach (board slide_position) (CHR ''b'') (ray 4 3 (0, 1)) = [(4, 4), (4, 5)] \<and>
   reach (board slide_position) (CHR ''b'') (ray 4 3 (1, 0)) = [(5, 3), (6, 3), (7, 3)] \<and>
   reach (board slide_position) (CHR ''b'') (ray 4 3 (0, - 1)) = [(4, 2), (4, 1), (4, 0)]"
  by code_simp



lemma pawn_walk_certified: "certified pawn_walk GameState_init"
  by code_simp

lemma pawn_walk_end:
  "(case play pawn_walk GameState_init of
      None \<Rightarrow> False
    | Some s \<Rightarrow>
        board s = pawn_walk_board \<and> whiteToMove s \<and>
        getPawnMoves (flipTurn s) 7 7 [] = None \<and>
        getAllPossibleMoves (flipTurn s) = None \<and>
        getValidMoves s = None)"
  by code_simp


lemma pin_filter_example:
  "wf_board (board pin_position) \<and> kings_tracked pin_position \<and>
   getAllPossibleMoves pin_position = Some (moves_on (board pin_position) pin_candidates) \<and>
   getValidMoves pin_position = Some (moves_on (board pin_position) pin_legal, pin_position) \<and>
   moves_on (board pin_position) pin_legal =
     filter (\<lambda>m. \<not> inCheck_after pin_position m) (moves_on (board pin_position) pin_candidates) \<and>
   move_to (board pin_position) 6 4 (5, 3) \<in> set (moves_on (board pin_position) pin_candidates) \<and>
   inCheck_after pin_position (move_to (board pin_position) 6 4 (5, 3)) \<and>
   \<not> py_in (move_to (board pin_position) 6 4 (5, 3)) (moves_on (board pin_position) pin_legal)"
proof -
  have wf: "wf_board (board pin_position)" and kt: "kings_tracked pin_position"
    using pin_playable by (simp_all add: playable_def)
  from getValidMoves_filters_by_inCheck[OF wf kt,
      of "moves_on (board pin_position) pin_candidates"
         "moves_on (board pin_position) pin_legal" pin_position]
    pin_candidates_eval pin_valid_moves pin_bishop_in_check pin_bishop_candidate wf kt
  show ?thesis by blast
qed

lemma pin_bishop_attacked:
  "leaves_king_attacked pin_position (move_to (board pin_position) 6 4 (5, 3))"
  by code_simp

lemma wrap_game_certified: "certified wrap_game GameState_init"
  by code_simp

lemma wrap_game_before:
  "(case play (butlast wrap_game) GameState_init of
      None \<Rightarrow> False
    | Some s \<Rightarrow>
        board s = wrap_board \<and> \<not> whiteToMove s \<and>
        legal_here s (6, 0) (7, 0) \<and>
        Move_init (6, 0) (7, 0) (board s) = Some king_to_corner \<and>
        leaves_king_attacked s king_to_corner \<and>
        (case makeMove king_to_corner s of
           None \<Rightarrow> False
         | Some s1 \<Rightarrow>
             blackKingLocation s1 = (7, 0) \<and>
             inCheck (flipTurn s1) = Some (False, flipTurn s1) \<and>
             (case getAllPossibleMoves s1 of
                None \<Rightarrow> False
              | Some replies \<Rightarrow> pawn_takes_king \<in> set replies) \<and>
             (case makeMove pawn_takes_king s1 of
                None \<Rightarrow> False
              | Some s2 \<Rightarrow> ''bK'' \<notin> set (concat (board s2)) \<and> board s2 ! 7 ! 0 = ''wp'')))"
  by code_simp

section \<open>The claims\<close>

text \<open>
  C1. Claimed: every generator checks each destination coordinate against the range 0..7
  before it reads the board, so no generator reads out of bounds. The pawn generator checks
  the destination column only. In the game 1. a3 h5 2. a4 h4 3. a5 h3 4. a6 hxg2 5. axb7 gxh1,
  every move of which the driver accepts as legal, black's pawn reaches row 7; from there
  \<open>getPawnMoves\<close> reads \<open>board[8]\<close> and raises, and so do the generation of black's
  moves and the next call of \<open>getValidMoves\<close>.
\<close>

theorem pawn_generator_reads_beyond_board:
  "play_legal pawn_walk GameState_init = play pawn_walk GameState_init \<and>
   (case play pawn_walk GameState_init of
      None \<Rightarrow> False
    | Some s \<Rightarrow>
        board s = pawn_walk_board \<and> whiteToMove s \<and>
        getPawnMoves (flipTurn s) 7 7 [] = None \<and>
        getAllPossibleMoves (flipTurn s) = None \<and>
        getValidMoves s = None)"
  using certified_play[OF pawn_walk_certified] pawn_walk_end by simp

text \<open>
  C2. Claimed: \<open>getValidMoves\<close> keeps a candidate if and only if applying it does not leave
  the mover's own king attacked by a pseudo-legal move of the opponent. The test of the loop,
  \<open>inCheck\<close>, compares the integers \<open>(endRow, endCol)\<close> of each reply with the
  king-location field (lemma \<open>getValidMoves_filters_by_inCheck\<close>), which is the claim's
  condition where every reply ends on the board (lemma \<open>inCheck_after_iff_attacked\<close>).
  The pawn generator checks the destination column only: for a white pawn on row 0 it reads
  \<open>board[-1]\<close>, which is row 7, and builds moves with \<open>endRow = -1\<close>, which the test
  never finds equal to a king's row. In the game 1. c4 e5 2. c5 Ke7 3. a4 Ke6 4. a5 Kd5 5. a6 Kc4
  6. Qb3+ Kxb3 7. axb7 Nc6 8. Ra2 Kxa2 9. b8 Ka1, every move of which the driver accepts as
  legal, \<open>getValidMoves\<close> keeps black's ninth move although it leaves the black king
  attacked: \<open>inCheck\<close> answers false, and among white's pseudo-legal replies is the move of
  the pawn from \<open>(0, 1)\<close> to \<open>(-1, 0)\<close>, which takes the king on \<open>(7, 0)\<close>.
\<close>

theorem getValidMoves_keeps_move_into_attack:
  "play_legal wrap_game GameState_init = play wrap_game GameState_init \<and>
   (case play (butlast wrap_game) GameState_init of
      None \<Rightarrow> False
    | Some s \<Rightarrow>
        board s = wrap_board \<and> \<not> whiteToMove s \<and>
        (\<exists>cands legal. getAllPossibleMoves s = Some cands \<and> getValidMoves s = Some (legal, s) \<and>
           king_to_corner \<in> set cands \<and> king_to_corner \<in> set legal) \<and>
        leaves_king_attacked s king_to_corner \<and>
        (case makeMove king_to_corner s of
           None \<Rightarrow> False
         | Some s1 \<Rightarrow>
             blackKingLocation s1 = (7, 0) \<and>
             inCheck (flipTurn s1) = Some (False, flipTurn s1) \<and>
             (case getAllPossibleMoves s1 of
                None \<Rightarrow> False
              | Some replies \<Rightarrow> pawn_takes_king \<in> set replies) \<and>
             (case makeMove pawn_takes_king s1 of
                None \<Rightarrow> False
              | Some s2 \<Rightarrow> ''bK'' \<notin> set (concat (board s2)) \<and> board s2 ! 7 ! 0 = ''wp'')))"
proof -
  from wrap_game_before obtain s where
    p: "play (butlast wrap_game) GameState_init = Some s"
    by (cases "play (butlast wrap_game) GameState_init") auto
  note e = wrap_game_before[unfolded p option.case]
  from e have l: "legal_here s (6, 0) (7, 0)"
    and mi: "Move_init (6, 0) (7, 0) (board s) = Some king_to_corner" by blast+
  from legal_here_valid[OF l] mi
  have "\<exists>cands legal. getAllPossibleMoves s = Some cands \<and> getValidMoves s = Some (legal, s) \<and>
          king_to_corner \<in> set cands \<and> king_to_corner \<in> set legal"
    by auto
  with e have "board s = wrap_board \<and> \<not> whiteToMove s \<and>
        (\<exists>cands legal. getAllPossibleMoves s = Some cands \<and> getValidMoves s = Some (legal, s) \<and>
           king_to_corner \<in> set cands \<and> king_to_corner \<in> set legal) \<and>
        leaves_king_attacked s king_to_corner \<and>
        (case makeMove king_to_corner s of
           None \<Rightarrow> False
         | Some s1 \<Rightarrow>
             blackKingLocation s1 = (7, 0) \<and>
             inCheck (flipTurn s1) = Some (False, flipTurn s1) \<and>
             (case getAllPossibleMoves s1 of
                None \<Rightarrow> False
              | Some replies \<Rightarrow> pawn_takes_king \<in> set replies) \<and>
             (case makeMove pawn_takes_king s1 of
                None \<Rightarrow> False
              | Some s2 \<Rightarrow> ''bK'' \<notin> set (concat (board s2)) \<and> board s2 ! 7 ! 0 = ''wp''))"
    by blast
  then show ?thesis
    using certified_play[OF wrap_game_certified] by (simp add: p)
qed



text \<open>
  C4. On an 8 by 8 board whose king-location fields name the kings' squares (as in every
  reachable state, lemma \<open>reachable_invariant\<close>), for every move
  \<open>m\<close> of the list \<open>getValidMoves\<close> returns, \<open>makeMove(m)\<close> followed by \<open>undoMove()\<close> gives
  back the very state it started from, be it the state before the call of \<open>getValidMoves\<close>
  or the one it left: the board, the side to move, both king locations, the whole move
  history (hence its length) and the two flags.
\<close>

theorem makeMove_undoMove_roundtrip:
  assumes "wf_board (board s)" and "kings_tracked s"
    and "getValidMoves s = Some (legal, s')" and "m \<in> set legal"
  shows "(\<exists>s1. makeMove m s = Some s1 \<and> moveLog s1 = moveLog s @ [m] \<and> undoMove s1 = Some s) \<and>
         (\<exists>s1. makeMove m s' = Some s1 \<and> moveLog s1 = moveLog s' @ [m] \<and> undoMove s1 = Some s')"
proof -
  from getValidMoves_Some[OF assms(3,1,2)] obtain cands where
    c: "getAllPossibleMoves s = Some cands" and l: "legal = filter (\<lambda>m. \<not> inCheck_after s m) cands"
    by blast
  from assms(4) l have "m \<in> set cands" by simp
  with getAllPossibleMoves_generated(2)[OF c assms(1)] have "generated s m" by blast
  then have r: "roundtrip s m" using assms(2) by (rule generated_roundtrip)
  have "roundtrip s' m"
    using roundtrip_flags[OF r] getValidMoves_frame[OF assms(3,1,2)] by metis
  with r show ?thesis
    by (auto simp: roundtrip_def dest: makeMove_log)
qed

theorem makeMove_undoMove_roundtrip_witness:
  "wf_board (board GameState_init) \<and> kings_tracked GameState_init \<and>
   getValidMoves GameState_init =
     Some (moves_on (board GameState_init) initial_destinations, GameState_init) \<and>
   move_to (board GameState_init) 6 4 (4, 4)
     \<in> set (moves_on (board GameState_init) initial_destinations) \<and>
   (\<exists>s1. makeMove (move_to (board GameState_init) 6 4 (4, 4)) GameState_init = Some s1 \<and>
         undoMove s1 = Some GameState_init)"
proof -
  have wf: "wf_board (board GameState_init)" and kt: "kings_tracked GameState_init"
    using init_playable by (simp_all add: playable_def)
  have mem: "move_to (board GameState_init) 6 4 (4, 4)
               \<in> set (moves_on (board GameState_init) initial_destinations)"
    by (simp add: moves_on_def initial_destinations_def)
  from makeMove_undoMove_roundtrip[OF wf kt init_valid_moves mem] wf kt init_valid_moves mem
  show ?thesis by blast
qed




text \<open>
  C6. When \<open>squareUnderAttack(row, col)\<close> returns, the state is the one it was called on,
  and its answer is whether some move generated for the other side (the side-to-move flag
  flipped) ends on \<open>(row, col)\<close>. When \<open>getValidMoves\<close> returns, on an 8 by 8 board whose
  king-location fields name the kings' squares (as in every reachable state), the board, the
  move history, the side to move and both king locations are what they were before the call.
\<close>

theorem squareUnderAttack_and_getValidMoves_frame:
  "(squareUnderAttack s row col = Some (chk, s1) \<longrightarrow>
      s1 = s \<and> (\<exists>opp. getAllPossibleMoves (flipTurn s) = Some opp \<and>
                 (chk \<longleftrightarrow> (\<exists>m \<in> set opp. endRow m = row \<and> endCol m = col)))) \<and>
   (wf_board (board s) \<and> kings_tracked s \<and> getValidMoves s = Some (legal, s2) \<longrightarrow>
      board s2 = board s \<and> moveLog s2 = moveLog s \<and> whiteToMove s2 = whiteToMove s \<and>
      whiteKingLocation s2 = whiteKingLocation s \<and> blackKingLocation s2 = blackKingLocation s)"
proof -
  have 1: "s1 = s \<and> (\<exists>opp. getAllPossibleMoves (flipTurn s) = Some opp \<and>
                 (chk \<longleftrightarrow> (\<exists>m \<in> set opp. endRow m = row \<and> endCol m = col)))"
    if "squareUnderAttack s row col = Some (chk, s1)"
    using that by (auto simp: squareUnderAttack_Some list_ex_iff)
  have 2: "board s2 = board s \<and> moveLog s2 = moveLog s \<and> whiteToMove s2 = whiteToMove s \<and>
      whiteKingLocation s2 = whiteKingLocation s \<and> blackKingLocation s2 = blackKingLocation s"
    if a: "wf_board (board s) \<and> kings_tracked s \<and> getValidMoves s = Some (legal, s2)"
  proof -
    from a have e: "s2 = s\<lparr> checkMate := checkMate s2, staleMate := staleMate s2 \<rparr>"
      using getValidMoves_frame by blast
    show ?thesis by (subst (1 2 3 4 5) e) simp
  qed
  from 1 2 show ?thesis by blast
qed

theorem squareUnderAttack_and_getValidMoves_frame_witness:
  "squareUnderAttack pin_position 7 4 = Some (False, pin_position) \<and>
   (\<exists>opp. getAllPossibleMoves (flipTurn pin_position) = Some opp \<and>
          \<not> list_ex (\<lambda>m. endRow m = 7 \<and> endCol m = 4) opp) \<and>
   wf_board (board pin_position) \<and> kings_tracked pin_position \<and>
   getValidMoves pin_position = Some (moves_on (board pin_position) pin_legal, pin_position)"
proof -
  have wf: "wf_board (board pin_position)" and kt: "kings_tracked pin_position"
    using pin_playable by (simp_all add: playable_def)
  from squareUnderAttack_and_getValidMoves_frame[of pin_position 7 4 False pin_position
      "moves_on (board pin_position) pin_legal" pin_position] pin_attack
  have "\<exists>opp. getAllPossibleMoves (flipTurn pin_position) = Some opp \<and>
          \<not> list_ex (\<lambda>m. endRow m = 7 \<and> endCol m = 4) opp"
    by (auto simp: list_ex_iff)
  with pin_attack wf kt pin_valid_moves show ?thesis by blast
qed

text \<open>
  C7. On the initial state \<open>getValidMoves\<close> returns exactly twenty moves and leaves the
  state as it was: for each of the eight white pawns its single and its double advance, then
  the two moves of each white knight.
\<close>

theorem initial_position_has_twenty_moves:
  "getValidMoves GameState_init =
     Some (moves_on (board GameState_init) initial_destinations, GameState_init) \<and>
   length (moves_on (board GameState_init) initial_destinations) = 20 \<and>
   map pieceMoved (moves_on (board GameState_init) initial_destinations)
     = replicate 16 ''wp'' @ replicate 4 ''wN'' \<and>
   map (\<lambda>m. (endRow m - startRow m, endCol m - startCol m))
       (take 16 (moves_on (board GameState_init) initial_destinations))
     = concat (replicate 8 [(- 1, 0), (- 2, 0)])"
proof -
  have "length (moves_on (board GameState_init) initial_destinations) = 20"
    by (simp add: moves_on_def initial_destinations_def)
  moreover have "map pieceMoved (moves_on (board GameState_init) initial_destinations)
     = replicate 16 ''wp'' @ replicate 4 ''wN''"
    by code_simp
  moreover have "map (\<lambda>m. (endRow m - startRow m, endCol m - startCol m))
       (take 16 (moves_on (board GameState_init) initial_destinations))
     = concat (replicate 8 [(- 1, 0), (- 2, 0)])"
    by code_simp
  ultimately show ?thesis using init_valid_moves by simp
qed

text \<open>
  C8. Two Move objects built from squares of the board, on whatever boards, compare equal
  under \<open>__eq__\<close> if and only if their four coordinates agree; the identifier of each is
  \<open>startRow * 1000 + startCol * 100 + endRow * 10 + endCol\<close>, and the comparison reads
  nothing else.
\<close>

theorem Move_eq_iff_same_coordinates:
  assumes "Move_init (sr, sc) (er, ec) b = Some m" and "Move_init (sr', sc') (er', ec') b' = Some m'"
    and "on_board (sr, sc)" and "on_board (er, ec)" and "on_board (sr', sc')" and "on_board (er', ec')"
  shows "(Move_eq m m' \<longleftrightarrow> (sr, sc, er, ec) = (sr', sc', er', ec')) \<and>
         (Move_eq m m' \<longleftrightarrow> moveID m = moveID m') \<and>
         moveID m = sr * 1000 + sc * 100 + er * 10 + ec \<and>
         moveID m' = sr' * 1000 + sc' * 100 + er' * 10 + ec'"
proof -
  have i: "moveID m = sr * 1000 + sc * 100 + er * 10 + ec"
          "moveID m' = sr' * 1000 + sc' * 100 + er' * 10 + ec'"
    using assms(1,2) by (auto simp: Move_init_Some)
  have "sr * 1000 + sc * 100 + er * 10 + ec = sr' * 1000 + sc' * 100 + er' * 10 + ec'
          \<Longrightarrow> sr = sr' \<and> sc = sc' \<and> er = er' \<and> ec = ec'"
    using assms(3-) by (intro moveID_inj) (auto simp: on_board_def)
  then show ?thesis using i by (auto simp: Move_eq_def)
qed

theorem Move_eq_iff_same_coordinates_witness:
  "Move_init (6, 0) (5, 0) (board GameState_init) = Some (move_to (board GameState_init) 6 0 (5, 0)) \<and>
   Move_init (6, 0) (5, 0) pawn_walk_board = Some (move_to pawn_walk_board 6 0 (5, 0)) \<and>
   on_board (6, 0) \<and> on_board (5, 0) \<and>
   pieceMoved (move_to (board GameState_init) 6 0 (5, 0)) = ''wp'' \<and>
   pieceMoved (move_to pawn_walk_board 6 0 (5, 0)) = ''--'' \<and>
   Move_eq (move_to (board GameState_init) 6 0 (5, 0)) (move_to pawn_walk_board 6 0 (5, 0)) \<and>
   moveID (move_to pawn_walk_board 6 0 (5, 0)) = 6050"
proof -
  have 1: "Move_init (6, 0) (5, 0) (board GameState_init)
             = Some (move_to (board GameState_init) 6 0 (5, 0))"
    by code_simp
  have 2: "Move_init (6, 0) (5, 0) pawn_walk_board = Some (move_to pawn_walk_board 6 0 (5, 0))"
    by code_simp
  have ob: "on_board (6, 0)" "on_board (5, 0)" by (simp_all add: on_board_def)
  have pm: "pieceMoved (move_to (board GameState_init) 6 0 (5, 0)) = ''wp''"
    "pieceMoved (move_to pawn_walk_board 6 0 (5, 0)) = ''--''"
    by code_simp+
  from Move_eq_iff_same_coordinates[OF 1 2 ob ob] 1 2 ob pm
  show ?thesis by simp
qed

text \<open>
  C9. On an 8 by 8 board of the engine's cell codes and from a square of the board, the scan
  of one direction appends exactly the moves to: every empty square met before the first
  occupied one, and that first occupied square if its piece has the enemy colour (a square
  with a friendly piece is left out); nothing beyond the first occupied square and nothing
  beyond the edge. \<open>getRookMoves\<close> is the four orthogonal scans in the order up, left, down,
  right, \<open>getBishopMoves\<close> the four diagonal ones, and \<open>getQueenMoves\<close> the rook's scans
  followed by the bishop's.
\<close>

theorem sliding_scan_stops_at_first_piece:
  assumes "wf_board (board s)" and "cells_ok (board s)" and "on_board (row, col)"
  shows "scan_dir s row col enemy d [1, 2, 3, 4, 5, 6, 7] moves =
           Some (moves @ map (move_to (board s) row col) (reach (board s) enemy (ray row col d))) \<and>
         getRookMoves s row col moves =
           Some (moves @ concat (map (\<lambda>d. map (move_to (board s) row col)
                    (reach (board s) (if whiteToMove s then CHR ''b'' else CHR ''w'') (ray row col d)))
                  [(- 1, 0), (0, - 1), (1, 0), (0, 1)])) \<and>
         getBishopMoves s row col moves =
           Some (moves @ concat (map (\<lambda>d. map (move_to (board s) row col)
                    (reach (board s) (if whiteToMove s then CHR ''b'' else CHR ''w'') (ray row col d)))
                  [(- 1, - 1), (- 1, 1), (1, - 1), (1, 1)])) \<and>
         getQueenMoves s row col moves =
           Some (moves @ concat (map (\<lambda>d. map (move_to (board s) row col)
                    (reach (board s) (if whiteToMove s then CHR ''b'' else CHR ''w'') (ray row col d)))
                  [(- 1, 0), (0, - 1), (1, 0), (0, 1), (- 1, - 1), (- 1, 1), (1, - 1), (1, 1)]))"
proof -
  note sl = slide_reach[OF assms]
  have 1: "scan_dir s row col enemy d [1, 2, 3, 4, 5, 6, 7] moves =
           Some (moves @ map (move_to (board s) row col) (reach (board s) enemy (ray row col d)))"
    unfolding ray_def by (rule scan_dir_reach[OF assms])
  have 2: "getQueenMoves s row col moves =
           Some (moves @ concat (map (\<lambda>d. map (move_to (board s) row col)
                    (reach (board s) (if whiteToMove s then CHR ''b'' else CHR ''w'') (ray row col d)))
                  [(- 1, 0), (0, - 1), (1, 0), (0, 1), (- 1, - 1), (- 1, 1), (1, - 1), (1, 1)]))"
    unfolding getQueenMoves_def getRookMoves_def getBishopMoves_def sl by simp
  show ?thesis
    using 1 2 unfolding getRookMoves_def getBishopMoves_def sl by simp
qed

theorem sliding_scan_stops_at_first_piece_witness:
  "wf_board (board slide_position) \<and> cells_ok (board slide_position) \<and> on_board (4, 3) \<and>
   reach (board slide_position) (CHR ''b'') (ray 4 3 (- 1, 0)) = [(3, 3), (2, 3), (1, 3)] \<and>
   reach (board slide_position) (CHR ''b'') (ray 4 3 (0, 1)) = [(4, 4), (4, 5)] \<and>
   scan_dir slide_position 4 3 (CHR ''b'') (- 1, 0) [1, 2, 3, 4, 5, 6, 7] []
     = Some (map (move_to (board slide_position) 4 3) [(3, 3), (2, 3), (1, 3)]) \<and>
   scan_dir slide_position 4 3 (CHR ''b'') (0, 1) [1, 2, 3, 4, 5, 6, 7] []
     = Some (map (move_to (board slide_position) 4 3) [(4, 4), (4, 5)])"
proof -
  from slide_board_ok have wf: "wf_board (board slide_position)"
    and ok: "cells_ok (board slide_position)" and ob: "on_board (4, 3)" by auto
  from slide_reach_eval have
    r1: "reach (board slide_position) (CHR ''b'') (ray 4 3 (- 1, 0)) = [(3, 3), (2, 3), (1, 3)]" and
    r2: "reach (board slide_position) (CHR ''b'') (ray 4 3 (0, 1)) = [(4, 4), (4, 5)]" by auto
  from sliding_scan_stops_at_first_piece[OF wf ok ob, of "CHR ''b''" "(- 1, 0)" "[]"]
  have s1: "scan_dir slide_position 4 3 (CHR ''b'') (- 1, 0) [1, 2, 3, 4, 5, 6, 7] []
     = Some (map (move_to (board slide_position) 4 3) [(3, 3), (2, 3), (1, 3)])"
    unfolding r1 by simp
  from sliding_scan_stops_at_first_piece[OF wf ok ob, of "CHR ''b''" "(0, 1)" "[]"]
  have s2: "scan_dir slide_position 4 3 (CHR ''b'') (0, 1) [1, 2, 3, 4, 5, 6, 7] []
     = Some (map (move_to (board slide_position) 4 3) [(4, 4), (4, 5)])"
    unfolding r2 by simp
  from wf ok ob r1 r2 s1 s2 show ?thesis by blast
qed



end
